theory Spec2Isabelle
  imports Main "HOL-Library.Product_Lexorder"
begin

section \<open>IR types\<close>

text \<open>
  The analysis works on LLVM IR with typed pointers. An LLVM type is a pointer into
  its \<open>LLVMContext\<close>, where types are uniqued: inside one context two types are the
  same pointer exactly when they are structurally equal (identified structs by name).
  The driver loads every module into a context of its own, so a type is modelled as
  the pair of its context and its shape, and \<open>Ty1 == Ty2\<close> of the source is equality
  of such pairs.
\<close>

datatype tshape =
    VoidTy
  | IntegerTy nat
  | PointerTy tshape
  | StructTy string "tshape list"
  | ArrayTy tshape nat
  | VectorTy tshape nat
  | FunctionTy tshape "tshape list" bool
  | OtherTy nat

type_synonym llcontext = nat
type_synonym Type = "llcontext \<times> tshape"
type_synonym module = nat

fun isPointerTy :: "Type \<Rightarrow> bool" where
  "isPointerTy (c, PointerTy t) = True"
| "isPointerTy (c, t) = False"

fun isStructTy :: "Type \<Rightarrow> bool" where
  "isStructTy (c, StructTy n ts) = True"
| "isStructTy (c, t) = False"

fun isArrayTy :: "Type \<Rightarrow> bool" where
  "isArrayTy (c, ArrayTy t n) = True"
| "isArrayTy (c, t) = False"

fun isVectorTy :: "Type \<Rightarrow> bool" where
  "isVectorTy (c, VectorTy t n) = True"
| "isVectorTy (c, t) = False"

fun isIntegerTy :: "Type \<Rightarrow> bool" where
  "isIntegerTy (c, IntegerTy w) = True"
| "isIntegerTy (c, t) = False"

fun isFunctionTy :: "Type \<Rightarrow> bool" where
  "isFunctionTy (c, FunctionTy r as v) = True"
| "isFunctionTy (c, t) = False"

text \<open>\<open>getPointerElementType\<close> is only called by the source on pointer types.\<close>

fun getPointerElementType :: "Type \<Rightarrow> Type" where
  "getPointerElementType (c, PointerTy t) = (c, t)"
| "getPointerElementType (c, t) = (c, t)"

fun getStructName :: "Type \<Rightarrow> string" where
  "getStructName (c, StructTy n ts) = n"
| "getStructName (c, t) = []"

fun getIntegerBitWidth :: "Type \<Rightarrow> nat" where
  "getIntegerBitWidth (c, IntegerTy w) = w"
| "getIntegerBitWidth (c, t) = 0"

definition isCompositeType :: "Type \<Rightarrow> bool" where
  "isCompositeType Ty = (if isStructTy Ty \<or> isArrayTy Ty \<or> isVectorTy Ty then True else False)"

section \<open>Fuzzy type match\<close>

text \<open>
  \<open>Int8PtrTy\<close> and \<open>IntPtrTy\<close> are the per-module tables of the \<open>MLTA\<close> class
  (the byte-pointer type and the pointer-sized integer type of each module). They are
  filled by the call-graph pass and are parameters here.
\<close>

record typetabs =
  Int8PtrTy :: "module \<Rightarrow> Type"
  IntPtrTy :: "module \<Rightarrow> Type"

text \<open>The \<open>while\<close> loop of \<open>fuzzyTypeMatch\<close>: peel pointers while both sides are pointers.\<close>

fun peelPointers :: "tshape \<Rightarrow> tshape \<Rightarrow> tshape \<times> tshape" where
  "peelPointers (PointerTy a) (PointerTy b) = peelPointers a b"
| "peelPointers a b = (a, b)"

definition fuzzyTypeMatch :: "typetabs \<Rightarrow> Type \<Rightarrow> Type \<Rightarrow> module \<Rightarrow> module \<Rightarrow> bool" where
  "fuzzyTypeMatch TT Ty1 Ty2 M1 M2 =
     (if Ty1 = Ty2 then True
      else
        (let P = peelPointers (snd Ty1) (snd Ty2);
             T1 = (fst Ty1, fst P);
             T2 = (fst Ty2, snd P)
         in if isStructTy T1 \<and> isStructTy T2 \<and> getStructName T1 = getStructName T2 then True
            else if isIntegerTy T1 \<and> isIntegerTy T2
                    \<and> getIntegerBitWidth T1 = getIntegerBitWidth T2 then True
            else if (T1 = Int8PtrTy TT M1 \<and> (isPointerTy T2 \<or> T2 = IntPtrTy TT M2))
                    \<or> (T2 = Int8PtrTy TT M1 \<and> (isPointerTy T1 \<or> T1 = IntPtrTy TT M2))
                 then True
            else False))"

section \<open>Signature matching: \<open>findCalleesWithType\<close>\<close>

type_synonym func = nat
type_synonym val = nat
type_synonym dl = nat

text \<open>
  What the analysis reads of a function and of a call instruction. \<open>funcHash\<close>
  and \<open>callHash\<close> are computed by helpers outside this file; their values are
  carried as fields. A \<open>Value *\<close> is an index into the value table below:
  \<open>fargs\<close> are the formal parameters of a function and \<open>finsts\<close> its
  instructions in the order of \<open>inst_begin(F)\<close> to \<open>inst_end(F)\<close>. \<open>callDL\<close> is
  the data layout of the call's module.
\<close>

record Function =
  fid :: func
  isVarArg :: bool
  argTys :: "Type list"
  returnTy :: Type
  isIntrinsic :: bool
  isDeclaration :: bool
  fparent :: module
  funcHash :: nat
  fargs :: "val list"
  finsts :: "val list"

record CallSite =
  isInlineAsm :: bool
  callHash :: nat
  callArgTys :: "Type list"
  callTy :: Type
  callerModule :: module
  calledOperand :: val
  callFunctionTy :: Type
  callDL :: dl

datatype error = ArgReadOutOfBounds | AssertionFailure | NoGEPIndex | NonTermination

text \<open>
  The argument loop: \<open>FI\<close> runs over the formal parameters of \<open>F\<close>, \<open>AI\<close> starts at
  \<open>arg_begin()\<close> of the call and is advanced with it; the loop has no test on \<open>AI\<close>.
  \<open>AI\<close> is the position in the call's argument list, and a read at a position that
  is not in the list is the error \<open>ArgReadOutOfBounds\<close>.
\<close>

fun matchArgs :: "typetabs \<Rightarrow> module \<Rightarrow> module \<Rightarrow> Type list \<Rightarrow> Type list \<Rightarrow> nat \<Rightarrow> error + bool" where
  "matchArgs TT CalleeM CallerM [] args AI = Inr True"
| "matchArgs TT CalleeM CallerM (DefinedTy # FIs) args AI =
     (if AI < length args then
        (if \<not> fuzzyTypeMatch TT DefinedTy (args ! AI) CalleeM CallerM then Inr False
         else matchArgs TT CalleeM CallerM FIs args (Suc AI))
      else Inl ArgReadOutOfBounds)"

text \<open>One iteration of the loop over \<open>AddressTakenFuncs\<close>; \<open>S\<close> is the result set.\<close>

definition considerFunc :: "typetabs \<Rightarrow> CallSite \<Rightarrow> Function \<Rightarrow> func set \<Rightarrow> error + func set" where
  "considerFunc TT CI F S =
     (if \<not> isVarArg F \<and> length (argTys F) \<noteq> length (callArgTys CI) then Inr S
      else if isIntrinsic F then Inr S
      else if callHash CI = funcHash F then Inr (insert (fid F) S)
      else
        (case matchArgs TT (fparent F) (callerModule CI) (argTys F) (callArgTys CI) 0 of
           Inl e \<Rightarrow> Inl e
         | Inr Matched \<Rightarrow>
             (if Matched \<and> fuzzyTypeMatch TT (returnTy F) (callTy CI) (fparent F) (callerModule CI)
              then Inr (insert (fid F) S) else Inr S)))"

fun considerFuncs :: "typetabs \<Rightarrow> CallSite \<Rightarrow> Function list \<Rightarrow> func set \<Rightarrow> error + func set" where
  "considerFuncs TT CI [] S = Inr S"
| "considerFuncs TT CI (F # Fs) S =
     (case considerFunc TT CI F S of
        Inl e \<Rightarrow> Inl e
      | Inr S' \<Rightarrow> considerFuncs TT CI Fs S')"

text \<open>
  \<open>MatchedFuncsMap\<close> is the cache, keyed by hash. The function returns the new
  result set and the new cache.
\<close>

type_synonym cache = "nat \<rightharpoonup> func set"

definition findCalleesWithType ::
  "typetabs \<Rightarrow> Function list \<Rightarrow> cache \<Rightarrow> CallSite \<Rightarrow> func set \<Rightarrow> error + (func set \<times> cache)" where
  "findCalleesWithType TT AddressTakenFuncs MatchedFuncsMap CI S =
     (if isInlineAsm CI then Inr (S, MatchedFuncsMap)
      else
        (case MatchedFuncsMap (callHash CI) of
           Some Cached \<Rightarrow> Inr (S \<union> Cached, MatchedFuncsMap)
         | None \<Rightarrow>
             (case considerFuncs TT CI AddressTakenFuncs S of
                Inl e \<Rightarrow> Inl e
              | Inr S' \<Rightarrow> Inr (S', MatchedFuncsMap(callHash CI \<mapsto> S')))))"

section \<open>Dependent types: \<open>getDependentTypes\<close>\<close>

text \<open>
  \<open>typeIdxPropMap\<close> is a \<open>map<size_t, map<int, set<hashidx_t>>>\<close>. It is modelled
  as a nested association list; the inner sets are lists in their iteration order.
  \<open>typeIdxPropMap[h][i]\<close> on a missing key is the empty set.
\<close>

type_synonym hashidx = "nat \<times> int"
type_synonym propmap = "(nat \<times> (int \<times> hashidx list) list) list"

definition propLookup :: "propmap \<Rightarrow> nat \<Rightarrow> int \<Rightarrow> hashidx list" where
  "propLookup m h i =
     (case map_of m h of
        None \<Rightarrow> []
      | Some im \<Rightarrow> (case map_of im i of None \<Rightarrow> [] | Some s \<Rightarrow> s))"

text \<open>Every pair stored anywhere in the map: the nodes the traversal can ever enqueue.\<close>

definition propTargets :: "propmap \<Rightarrow> hashidx set" where
  "propTargets m = (\<Union>e \<in> set m. \<Union>f \<in> set (snd e). set (snd f))"

lemma propLookup_subset: "set (propLookup m h i) \<subseteq> propTargets m"
proof (cases "map_of m h")
  case None
  then show ?thesis by (simp add: propLookup_def)
next
  case (Some im)
  note im = this
  show ?thesis
  proof (cases "map_of im i")
    case None
    then show ?thesis using im by (simp add: propLookup_def)
  next
    case (Some s)
    have "(h, im) \<in> set m" using im by (rule map_of_SomeD)
    moreover have "(i, s) \<in> set im" using Some by (rule map_of_SomeD)
    ultimately have "set s \<subseteq> propTargets m"
      unfolding propTargets_def by force
    then show ?thesis using im Some by (simp add: propLookup_def)
  qed
qed

text \<open>
  The work-list loop of \<open>getDependentTypes\<close>: \<open>LT\<close> is the queue, popped at the
  front and pushed at the back.
\<close>

function getDependentTypesLoop ::
  "propmap \<Rightarrow> hashidx list \<Rightarrow> hashidx set \<Rightarrow> hashidx set \<Rightarrow> hashidx set" where
  "getDependentTypesLoop m [] Visited PropSet = PropSet"
| "getDependentTypesLoop m (TI # LT) Visited PropSet =
     (if TI \<in> Visited then getDependentTypesLoop m LT Visited PropSet
      else
        getDependentTypesLoop m
          (LT @ propLookup m (fst TI) (snd TI) @ propLookup m (fst TI) (- 1))
          (insert TI Visited)
          (PropSet \<union> set (propLookup m (fst TI) (snd TI)) \<union> set (propLookup m (fst TI) (- 1))))"
  by pat_completeness auto

lemma propTargets_finite: "finite (propTargets m)"
  by (simp add: propTargets_def)

termination getDependentTypesLoop
proof (relation "measures [\<lambda>(m, LT, Visited, PropSet). card ((propTargets m \<union> set LT) - Visited),
                          \<lambda>(m, LT, Visited, PropSet). length LT]")
  show "wf (measures [\<lambda>(m, LT, Visited, PropSet). card ((propTargets m \<union> set LT) - Visited),
                      \<lambda>(m, LT, Visited, PropSet). length LT])"
    by simp
next
  fix m :: propmap and TI LT and Visited PropSet :: "hashidx set"
  assume "TI \<in> Visited"
  then have "(propTargets m \<union> set LT) - Visited = (propTargets m \<union> set (TI # LT)) - Visited"
    by auto
  then show "((m, LT, Visited, PropSet), (m, TI # LT, Visited, PropSet))
      \<in> measures [\<lambda>(m, LT, Visited, PropSet). card ((propTargets m \<union> set LT) - Visited),
                   \<lambda>(m, LT, Visited, PropSet). length LT]"
    by simp
next
  fix m :: propmap and TI LT and Visited PropSet :: "hashidx set"
  assume nv: "TI \<notin> Visited"
  let ?LT' = "LT @ propLookup m (fst TI) (snd TI) @ propLookup m (fst TI) (- 1)"
  have fin: "finite ((propTargets m \<union> set (TI # LT)) - Visited)"
    using propTargets_finite by simp
  have sub: "(propTargets m \<union> set ?LT') - insert TI Visited
               \<subset> (propTargets m \<union> set (TI # LT)) - Visited"
    using nv propLookup_subset [of m "fst TI" "snd TI"] propLookup_subset [of m "fst TI" "- 1"]
    by auto
  have "card ((propTargets m \<union> set ?LT') - insert TI Visited)
          < card ((propTargets m \<union> set (TI # LT)) - Visited)"
    using fin sub by (rule psubset_card_mono)
  then show "((m, ?LT', insert TI Visited,
               PropSet \<union> set (propLookup m (fst TI) (snd TI)) \<union> set (propLookup m (fst TI) (- 1))),
              (m, TI # LT, Visited, PropSet))
      \<in> measures [\<lambda>(m, LT, Visited, PropSet). card ((propTargets m \<union> set LT) - Visited),
                   \<lambda>(m, LT, Visited, PropSet). length LT]"
    by simp
qed

text \<open>
  \<open>getDependentTypes(Ty, Idx, PropSet, DL)\<close>; \<open>h\<close> is \<open>typeHash(Ty, DL)\<close> and
  \<open>PropSet\<close> is the caller's set, which the function only adds to.
\<close>

definition getDependentTypes :: "propmap \<Rightarrow> nat \<Rightarrow> int \<Rightarrow> hashidx set \<Rightarrow> hashidx set" where
  "getDependentTypes m h Idx PropSet = getDependentTypesLoop m [(h, Idx)] {} PropSet"

text \<open>
  The directed graph of \<open>typeIdxPropMap\<close> as the loop follows it: from a node
  \<open>(h, j)\<close> the edges stored under \<open>[h][j]\<close> and the edges stored under \<open>[h][-1]\<close>.
\<close>

definition propEdges :: "propmap \<Rightarrow> (hashidx \<times> hashidx) set" where
  "propEdges m = {(a, b). b \<in> set (propLookup m (fst a) (snd a)) \<union> set (propLookup m (fst a) (- 1))}"

section \<open>IR values\<close>

text \<open>
  IR values (instructions, constants, arguments, globals, functions) live in a table;
  a \<open>Value *\<close> is an index into it and a null pointer is \<open>None\<close>. Only the
  value kinds the analysis dispatches on are distinguished. \<open>BitCast\<close> stands for
  \<open>BitCastOperator\<close> (instruction or constant expression), \<open>CastOther\<close> for the
  other cast instructions. A GEP carries its pointer operand, its source element type
  and its indices, \<open>Some c\<close> for a \<open>ConstantInt\<close> of value \<open>c\<close> and \<open>None\<close> for
  any other index.
\<close>

type_synonym typeidx = "Type \<times> int"

datatype vkind =
    Argument
  | GEP val Type "int option list"
  | Load val
  | BitCast val
  | CastOther val
  | PtrToInt val
  | PHI "val list"
  | Select val val val
  | Unary val
  | Store val val
  | Call val "val list"
  | FunctionV func
  | GlobalVariable "val option"
  | ConstantAggregate "val list"
  | ConstantPointerNull
  | ConstantData
  | Other "val list"

record Value =
  vty :: Type
  vkind :: vkind
  vfunc :: "func option"

type_synonym irtab = "Value list"

text \<open>A value that is not in the table has no kind the analysis knows.\<close>

definition kindOf :: "irtab \<Rightarrow> val \<Rightarrow> vkind" where
  "kindOf IR v = (if v < length IR then vkind (IR ! v) else Other [])"

definition typeOf :: "irtab \<Rightarrow> val \<Rightarrow> Type" where
  "typeOf IR v = (if v < length IR then vty (IR ! v) else (0, VoidTy))"

definition funcOf :: "irtab \<Rightarrow> val \<Rightarrow> func option" where
  "funcOf IR v = (if v < length IR then vfunc (IR ! v) else None)"

fun operands :: "vkind \<Rightarrow> val list" where
  "operands Argument = []"
| "operands (GEP PO ETy idxs) = [PO]"
| "operands (Load p) = [p]"
| "operands (BitCast x) = [x]"
| "operands (CastOther x) = [x]"
| "operands (PtrToInt x) = [x]"
| "operands (PHI ivs) = ivs"
| "operands (Select c t f) = [c, t, f]"
| "operands (Unary x) = [x]"
| "operands (Store v p) = [v, p]"
| "operands (Call cv args) = args @ [cv]"
| "operands (FunctionV f) = []"
| "operands (GlobalVariable ini) = (case ini of None \<Rightarrow> [] | Some i \<Rightarrow> [i])"
| "operands (ConstantAggregate ops) = ops"
| "operands ConstantPointerNull = []"
| "operands ConstantData = []"
| "operands (Other ops) = ops"

text \<open>\<open>V->users()\<close>: the values of the table that have \<open>V\<close> among their operands.\<close>

definition users :: "irtab \<Rightarrow> val \<Rightarrow> val list" where
  "users IR v = filter (\<lambda>u. v \<in> set (operands (vkind (IR ! u)))) [0..<length IR]"

section \<open>The analysis context\<close>

text \<open>
  The \<open>MLTA\<close> object: the compile-time switches, the IR, the tables filled by the
  collection phase and the helpers that are not part of this file (type hashing, the
  data layout's offset-to-indices query and \<open>Value::stripPointerCasts\<close>), which are
  parameters. \<open>Funcs\<close> gives the function behind a function identifier and
  \<open>GlobalFuncs\<close> the definition that the global context records for a declaration.
\<close>

type_synonym funcsmap = "nat \<Rightarrow> int \<Rightarrow> func set"

record Ctx =
  SOUND_MODE :: bool
  MLTA_FIELD_INSENSITIVE :: bool
  MAX_TYPE_LAYER :: int
  IR :: irtab
  typeHash :: "Type \<Rightarrow> dl \<Rightarrow> nat"
  typeIdxHash :: "Type \<Rightarrow> dl \<Rightarrow> int \<Rightarrow> nat"
  getGEPIndicesForOffset :: "val \<Rightarrow> Type \<Rightarrow> int \<Rightarrow> int list"
  AliasStructPtrMap :: "func \<Rightarrow> (val \<rightharpoonup> val)"
  sigFuncsMap :: "nat \<Rightarrow> func set"
  typeIdxFuncsMap :: funcsmap
  typeIdxPropMap :: propmap
  typeCapSet :: "nat set"
  typeEscapeSet :: "nat set"
  VTableFuncsMap :: "val \<Rightarrow> func set"
  Funcs :: "func \<Rightarrow> Function"
  GlobalFuncs :: "func \<Rightarrow> func option"
  stripPointerCasts :: "val \<Rightarrow> val"

definition recoverBaseType :: "Ctx \<Rightarrow> val \<Rightarrow> val option" where
  "recoverBaseType C V =
     (case funcOf (IR C) V of
        None \<Rightarrow> None
      | Some F \<Rightarrow> AliasStructPtrMap C F V)"

section \<open>The layer walker\<close>

text \<open>
  \<open>STy->getElementType(Idx)\<close> asserts that the index is in range; arrays and vectors
  have one element type; \<open>assert(SubTy)\<close> fails on every other type.
\<close>

fun subType :: "Type \<Rightarrow> int \<Rightarrow> error + Type" where
  "subType (c, StructTy n ts) Idx =
     (if 0 \<le> Idx \<and> nat Idx < length ts then Inr (c, ts ! nat Idx) else Inl AssertionFailure)"
| "subType (c, ArrayTy t n) Idx = Inr (c, t)"
| "subType (c, VectorTy t n) Idx = Inr (c, t)"
| "subType (c, t) Idx = Inl AssertionFailure"

text \<open>The loop over \<open>Indices\<close> from its second element on; \<open>TmpTyList\<close> grows at the front.\<close>

fun gepWalk :: "bool \<Rightarrow> int list \<Rightarrow> Type \<Rightarrow> typeidx list \<Rightarrow> error + (Type \<times> typeidx list)" where
  "gepWalk FI [] ETy TmpTyList = Inr (ETy, TmpTyList)"
| "gepWalk FI (Idx # rest) ETy TmpTyList =
     (case subType ETy Idx of
        Inl e \<Rightarrow> Inl e
      | Inr SubTy \<Rightarrow> gepWalk FI rest SubTy ((ETy, if FI then 0 else Idx) # TmpTyList))"

text \<open>The bitcast users of the GEP whose target is a pointer to the first field's type.\<close>

definition firstFieldCasts :: "irtab \<Rightarrow> val \<Rightarrow> Type \<Rightarrow> Type \<Rightarrow> typeidx list" where
  "firstFieldCasts tab G ETy Ty0 =
     map (\<lambda>U. (ETy, 0))
       (filter (\<lambda>U. (case kindOf tab U of
                        BitCast x \<Rightarrow> isPointerTy (typeOf tab U)
                                     \<and> Ty0 = getPointerElementType (typeOf tab U)
                      | _ \<Rightarrow> False))
          (users tab G))"

fun firstFieldLayers :: "irtab \<Rightarrow> val \<Rightarrow> Type \<Rightarrow> typeidx list" where
  "firstFieldLayers tab G (c, StructTy n (t0 # ts)) =
     firstFieldCasts tab G (c, StructTy n (t0 # ts)) (c, t0)"
| "firstFieldLayers tab G (c, t) = []"

definition hasBitCastUser :: "irtab \<Rightarrow> val \<Rightarrow> bool" where
  "hasBitCastUser tab G =
     list_ex (\<lambda>U. (case kindOf tab U of BitCast x \<Rightarrow> True | _ \<Rightarrow> False)) (users tab G)"

text \<open>
  \<open>getGEPLayerTypes(GEP, TyList)\<close>. \<open>G\<close> is the GEP, \<open>PO\<close>, \<open>ETy0\<close> and \<open>idxs\<close>
  its pointer operand, source element type and indices. A GEP without an index makes
  the source read \<open>*idx_begin()\<close> of an empty range, the error \<open>NoGEPIndex\<close> here.
\<close>

datatype gepStart = Bail | Start Type "int list"

definition gepIndices :: "Ctx \<Rightarrow> val \<Rightarrow> val \<Rightarrow> Type \<Rightarrow> int option list \<Rightarrow> gepStart" where
  "gepIndices C G PO ETy0 idxs =
     (let plain = map (\<lambda>i. case i of Some c \<Rightarrow> c | None \<Rightarrow> - 1) idxs in
      case hd idxs of
        None \<Rightarrow> Start ETy0 plain
      | Some c \<Rightarrow>
          if c = 0 then Start ETy0 plain
          else
            (case recoverBaseType C PO of
               Some BV \<Rightarrow>
                 (let ETy = getPointerElementType (typeOf (IR C) BV);
                      Indices = getGEPIndicesForOffset C PO ETy c
                  in Start ETy (if Indices = [] then plain else Indices))
             | None \<Rightarrow>
                 if isStructTy ETy0 \<and> hasBitCastUser (IR C) G \<and> SOUND_MODE C then Bail
                 else Start ETy0 plain))"

definition getGEPLayerTypes ::
  "Ctx \<Rightarrow> val \<Rightarrow> val \<Rightarrow> Type \<Rightarrow> int option list \<Rightarrow> typeidx list \<Rightarrow> error + (bool \<times> typeidx list)" where
  "getGEPLayerTypes C G PO ETy0 idxs TyList =
     (if idxs = [] then Inl NoGEPIndex
      else
        (case gepIndices C G PO ETy0 idxs of
           Bail \<Rightarrow> Inr (False, TyList)
         | Start ETy Indices \<Rightarrow>
             (case gepWalk (MLTA_FIELD_INSENSITIVE C) (tl Indices) ETy [] of
                Inl e \<Rightarrow> Inl e
              | Inr (ETy', Tmp) \<Rightarrow>
                  (let TmpTyList = firstFieldLayers (IR C) G ETy' @ Tmp
                   in if TmpTyList \<noteq> [] then Inr (True, TyList @ TmpTyList)
                      else Inr (False, TyList)))))"

text \<open>
  \<open>nextLayerBaseType(V, TyList, NextV, Visited)\<close> returns its \<open>bool\<close> together with
  the three reference parameters. \<open>phiIncoming\<close> is its loop over the incoming values
  of a PHI node: every incoming value is tried on a copy of \<open>TyList\<close> and \<open>Visited\<close>,
  and the last copies are kept.
\<close>

type_synonym walk = "bool \<times> typeidx list \<times> val option \<times> val set"

function nextLayerBaseType :: "Ctx \<Rightarrow> val option \<Rightarrow> typeidx list \<Rightarrow> val option \<Rightarrow> val set \<Rightarrow> error + walk"
  and phiIncoming :: "Ctx \<Rightarrow> val list \<Rightarrow> typeidx list \<Rightarrow> val set \<Rightarrow> walk \<Rightarrow> error + walk" where
  "nextLayerBaseType C V TyList NextV Visited =
     (case V of
        None \<Rightarrow> Inr (False, TyList, None, Visited)
      | Some v \<Rightarrow>
          if kindOf (IR C) v = Argument then Inr (False, TyList, Some v, Visited)
          else if v \<in> Visited then Inr (False, TyList, Some v, Visited)
          else
            (case kindOf (IR C) v of
               GEP PO ETy idxs \<Rightarrow>
                 (case getGEPLayerTypes C v PO ETy idxs TyList of
                    Inl e \<Rightarrow> Inl e
                  | Inr (ret, TyList') \<Rightarrow>
                      Inr (ret, TyList', if ret then Some PO else None, insert v Visited))
             | Load p \<Rightarrow> nextLayerBaseType C (Some p) TyList (Some p) (insert v Visited)
             | BitCast x \<Rightarrow> nextLayerBaseType C (Some x) TyList (Some x) (insert v Visited)
             | PHI ivs \<Rightarrow> phiIncoming C ivs TyList (insert v Visited) (False, [], NextV, {})
             | Select c t f \<Rightarrow> nextLayerBaseType C (Some t) TyList (Some t) (insert v Visited)
             | Unary x \<Rightarrow> nextLayerBaseType C (Some x) TyList (Some x) (insert v Visited)
             | _ \<Rightarrow> Inr (False, TyList, None, insert v Visited)))"
| "phiIncoming C [] TyList Visited acc = Inr acc"
| "phiIncoming C (IV # ivs) TyList Visited acc =
     (case nextLayerBaseType C (Some IV) TyList (Some IV) Visited of
        Inl e \<Rightarrow> Inl e
      | Inr (ret, NTyList, NextV, NVisited) \<Rightarrow>
          if length NTyList > length TyList then Inr (ret, NTyList, NextV, NVisited)
          else phiIncoming C ivs TyList Visited (ret, NTyList, NextV, NVisited))"
  by pat_completeness auto

text \<open>The values of the table that are not in \<open>Visited\<close>: what bounds the recursion.\<close>

definition unvisited :: "Ctx \<Rightarrow> val set \<Rightarrow> nat" where
  "unvisited C Visited = card ({..<length (IR C)} - Visited)"

lemma unvisited_insert:
  "v < length (IR C) \<Longrightarrow> v \<notin> Visited \<Longrightarrow> unvisited C (insert v Visited) < unvisited C Visited"
  unfolding unvisited_def by (rule psubset_card_mono) auto

lemma kindOf_in_table: "kindOf tab v \<noteq> Other [] \<Longrightarrow> v < length tab"
  by (auto simp: kindOf_def split: if_splits)

lemma nextLayerBaseType_dom_all: "All nextLayerBaseType_phiIncoming_dom"
  apply (relation "measures [\<lambda>x. case x of Inl (C, V, TyList, NextV, Visited) \<Rightarrow> unvisited C Visited
                                  | Inr (C, ivs, TyList, Visited, acc) \<Rightarrow> unvisited C Visited,
                       \<lambda>x. case x of Inl (C, V, TyList, NextV, Visited) \<Rightarrow> 0
                                  | Inr (C, ivs, TyList, Visited, acc) \<Rightarrow> Suc (length ivs)]")
  apply (auto intro!: unvisited_insert kindOf_in_table)
  done

termination nextLayerBaseType
  by (rule nextLayerBaseType_dom_all)

declare nextLayerBaseType.simps [simp del]

section \<open>Base types and the base-type chain\<close>

text \<open>
  The first part of \<open>getBaseType\<close>: the type of the value itself, its pointee, or the
  type recovered through \<open>AliasStructPtrMap\<close>.
\<close>

definition ownBaseType :: "Ctx \<Rightarrow> val \<Rightarrow> Type option" where
  "ownBaseType C v =
     (let Ty = typeOf (IR C) v in
      if isCompositeType Ty then Some Ty
      else if isPointerTy Ty then
        (let ETy = getPointerElementType Ty in
         if isCompositeType ETy then Some ETy
         else (case recoverBaseType C v of
                 Some BV \<Rightarrow> Some (getPointerElementType (typeOf (IR C) BV))
               | None \<Rightarrow> None))
      else None)"

function getBaseType :: "Ctx \<Rightarrow> val option \<Rightarrow> val set \<Rightarrow> Type option \<times> val set"
  and getPhiBaseType :: "Ctx \<Rightarrow> val list \<Rightarrow> val set \<Rightarrow> Type option \<times> val set" where
  "getBaseType C V Visited =
     (case V of
        None \<Rightarrow> (None, Visited)
      | Some v \<Rightarrow>
          if v \<in> Visited then (None, Visited)
          else
            (case ownBaseType C v of
               Some Ty \<Rightarrow> (Some Ty, insert v Visited)
             | None \<Rightarrow>
                 (case kindOf (IR C) v of
                    BitCast x \<Rightarrow> getBaseType C (Some x) (insert v Visited)
                  | Select c t f \<Rightarrow> getBaseType C (Some t) (insert v Visited)
                  | PHI ivs \<Rightarrow> getPhiBaseType C ivs (insert v Visited)
                  | Load p \<Rightarrow> getBaseType C (Some p) (insert v Visited)
                  | _ \<Rightarrow> (None, insert v Visited))))"
| "getPhiBaseType C [] Visited = (None, Visited)"
| "getPhiBaseType C (IV # ivs) Visited =
     (case getBaseType C (Some IV) Visited of
        (Some BTy, Visited') \<Rightarrow> (Some BTy, Visited')
      | (None, Visited') \<Rightarrow> getPhiBaseType C ivs Visited')"
  by pat_completeness auto

lemma getBaseType_visited_mono:
  "getBaseType_getPhiBaseType_dom (Inl (C, V, Visited)) \<Longrightarrow> Visited \<subseteq> snd (getBaseType C V Visited)"
  "getBaseType_getPhiBaseType_dom (Inr (C, ivs, Visited)) \<Longrightarrow> Visited \<subseteq> snd (getPhiBaseType C ivs Visited)"
proof (induction C V Visited and C ivs Visited rule: getBaseType_getPhiBaseType.pinduct)
  case (1 C V Visited)
  then show ?case
    by (auto simp: getBaseType.psimps split: option.splits vkind.splits)
next
  case (2 C Visited)
  then show ?case by (simp add: getPhiBaseType.psimps)
next
  case (3 C IV ivs Visited)
  obtain r y where r: "getBaseType C (Some IV) Visited = (r, y)"
    by (cases "getBaseType C (Some IV) Visited")
  have sub: "Visited \<subseteq> y" using 3(2) r by simp
  show ?case
  proof (cases r)
    case None
    have "y \<subseteq> snd (getPhiBaseType C ivs y)"
      using 3(3) [of r y] r None by simp
    then show ?thesis using 3(1) r None sub by (simp add: getPhiBaseType.psimps)
  next
    case (Some BTy)
    then show ?thesis using 3(1) r sub by (simp add: getPhiBaseType.psimps)
  qed
qed

lemma unvisited_mono: "A \<subseteq> B \<Longrightarrow> unvisited C B \<le> unvisited C A"
  unfolding unvisited_def by (rule card_mono) auto

lemma getBaseType_dom_all: "All getBaseType_getPhiBaseType_dom"
proof (relation "measures [\<lambda>x. case x of Inl (C, V, Visited) \<Rightarrow> unvisited C Visited
                                  | Inr (C, ivs, Visited) \<Rightarrow> unvisited C Visited,
                       \<lambda>x. case x of Inl (C, V, Visited) \<Rightarrow> 0
                                  | Inr (C, ivs, Visited) \<Rightarrow> Suc (length ivs)]", goal_cases)
  case 1
  then show ?case by simp
next
  case (7 C IV ivs Visited x y)
  have "Visited \<subseteq> snd (getBaseType C (Some IV) Visited)"
    using 7 getBaseType_visited_mono(1) [of C "Some IV" Visited] by blast
  moreover have "snd (getBaseType C (Some IV) Visited) = y"
    using 7(1) [symmetric] by simp
  ultimately have "unvisited C y \<le> unvisited C Visited"
    using unvisited_mono [of Visited y C] by simp
  then show ?case by auto
qed (auto intro!: unvisited_insert kindOf_in_table)

termination getBaseType
  by (rule getBaseType_dom_all)

declare getBaseType.simps [simp del]

lemma nextLayerBaseType_progress_aux:
  "nextLayerBaseType C V TyList NextV Visited = Inr (True, T', N', Vis') \<Longrightarrow>
     (\<exists>v. V = Some v \<and> v < length (IR C) \<and> v \<notin> Visited \<and> insert v Visited \<subseteq> Vis')"
  "phiIncoming C ivs TyList Visited acc = Inr (True, T', N', Vis') \<Longrightarrow>
     acc = (True, T', N', Vis') \<or> Visited \<subseteq> Vis'"
proof (induction C V TyList NextV Visited and C ivs TyList Visited acc
       arbitrary: T' N' Vis' and T' N' Vis' rule: nextLayerBaseType_phiIncoming.induct)
  case (1 C V TyList NextV Visited)
  note [simp] = nextLayerBaseType.simps
  show ?case
  proof (cases V)
    case None
    then show ?thesis using "1.prems" by simp
  next
    case (Some v)
    note V = this
    have na: "kindOf (IR C) v \<noteq> Argument" and nv: "v \<notin> Visited"
      using "1.prems" V by (auto split: if_splits)
    have intab: "v < length (IR C)"
      using "1.prems" V na nv by (intro kindOf_in_table) (auto split: if_splits)
    have "insert v Visited \<subseteq> Vis'"
    proof (cases "kindOf (IR C) v")
      case (GEP PO ETy idxs)
      then show ?thesis using "1.prems" V na nv
        by (auto split: sum.splits if_splits)
    next
      case (Load p)
      from "1.IH"(1) [OF V na nv Load, of T' N' Vis'] "1.prems" V na nv Load
      show ?thesis by auto
    next
      case (BitCast x)
      from "1.IH"(2) [OF V na nv BitCast, of T' N' Vis'] "1.prems" V na nv BitCast
      show ?thesis by auto
    next
      case (PHI ivs)
      from "1.IH"(3) [OF V na nv PHI, of T' N' Vis'] "1.prems" V na nv PHI
      show ?thesis by auto
    next
      case (Select c t f)
      from "1.IH"(4) [OF V na nv Select, of T' N' Vis'] "1.prems" V na nv Select
      show ?thesis by auto
    next
      case (Unary x)
      from "1.IH"(5) [OF V na nv Unary, of T' N' Vis'] "1.prems" V na nv Unary
      show ?thesis by auto
    qed (use "1.prems" V na nv in auto)
    then show ?thesis using V intab nv by simp
  qed
next
  case (2 C TyList Visited acc)
  then show ?case by simp
next
  case (3 C IV ivs TyList Visited acc)
  show ?case
  proof (cases "nextLayerBaseType C (Some IV) TyList (Some IV) Visited")
    case (Inl e)
    then show ?thesis using "3.prems" by simp
  next
    case (Inr w)
    obtain ret NT NV NVis where w: "w = (ret, NT, NV, NVis)" by (cases w)
    note call = Inr [unfolded w]
    show ?thesis
    proof (cases "length NT > length TyList")
      case True
      then have "nextLayerBaseType C (Some IV) TyList (Some IV) Visited = Inr (True, T', N', Vis')"
        using "3.prems" call by simp
      from "3.IH"(1) [OF this] show ?thesis by auto
    next
      case False
      then have rest: "phiIncoming C ivs TyList Visited (ret, NT, NV, NVis) = Inr (True, T', N', Vis')"
        using "3.prems" call by simp
      have "(ret, NT, NV, NVis) = (True, T', N', Vis') \<or> Visited \<subseteq> Vis'"
        by (rule "3.IH"(2) [OF call refl refl refl False rest])
      then show ?thesis
      proof
        assume "(ret, NT, NV, NVis) = (True, T', N', Vis')"
        then have "nextLayerBaseType C (Some IV) TyList (Some IV) Visited = Inr (True, T', N', Vis')"
          using call by simp
        from "3.IH"(1) [OF this] show ?thesis by auto
      next
        assume "Visited \<subseteq> Vis'"
        then show ?thesis by simp
      qed
    qed
  qed
qed

text \<open>The loop \<open>while (nextLayerBaseType(CV, TyList, NextV, Visited)) CV = NextV;\<close>\<close>

function chainLoop ::
  "Ctx \<Rightarrow> val option \<Rightarrow> typeidx list \<Rightarrow> val option \<Rightarrow> val set \<Rightarrow> error + (typeidx list \<times> val option)" where
  "chainLoop C CV TyList NextV Visited =
     (case nextLayerBaseType C CV TyList NextV Visited of
        Inl e \<Rightarrow> Inl e
      | Inr (ret, TyList', NextV', Visited') \<Rightarrow>
          if ret then chainLoop C NextV' TyList' NextV' Visited'
          else Inr (TyList', NextV'))"
  by pat_completeness auto

lemma nextLayerBaseType_unvisited:
  assumes "nextLayerBaseType C V TyList NextV Visited = Inr (True, T', N', Vis')"
  shows "unvisited C Vis' < unvisited C Visited"
proof -
  from nextLayerBaseType_progress_aux(1) [OF assms]
  obtain v where v: "v < length (IR C)" "v \<notin> Visited" "insert v Visited \<subseteq> Vis'"
    by blast
  have "unvisited C Vis' \<le> unvisited C (insert v Visited)"
    using v(3) by (rule unvisited_mono)
  also have "\<dots> < unvisited C Visited"
    using v(1,2) by (rule unvisited_insert)
  finally show ?thesis .
qed

lemma chainLoop_dom_all: "All chainLoop_dom"
  by (relation "measure (\<lambda>(C, CV, TyList, NextV, Visited). unvisited C Visited)")
     (auto dest: nextLayerBaseType_unvisited)

termination chainLoop
  by (rule chainLoop_dom_all)

declare chainLoop.simps [simp del]

text \<open>
  \<open>getBaseTypeChain(Chain, V, Complete, DL)\<close> returns the chain, \<open>Complete\<close> and the
  context, whose \<open>typeCapSet\<close> it may extend.
\<close>

definition isStoreTo :: "irtab \<Rightarrow> val \<Rightarrow> val \<Rightarrow> bool" where
  "isStoreTo tab n U = (case kindOf tab U of Store v p \<Rightarrow> p = n | _ \<Rightarrow> False)"

definition chainComplete :: "Ctx \<Rightarrow> val option \<Rightarrow> bool" where
  "chainComplete C NextV =
     (case NextV of
        None \<Rightarrow> False
      | Some n \<Rightarrow>
          if kindOf (IR C) n = Argument \<and> isPointerTy (typeOf (IR C) n) then False
          else \<not> list_ex (isStoreTo (IR C) n) (users (IR C) n))"

definition getBaseTypeChain ::
  "Ctx \<Rightarrow> typeidx list \<Rightarrow> val \<Rightarrow> dl \<Rightarrow> error + (typeidx list \<times> bool \<times> Ctx)" where
  "getBaseTypeChain C Chain V DL =
     (let Chain1 = (case fst (getBaseType C (Some V) {}) of
                      Some BTy \<Rightarrow> Chain @ [(BTy, 0)]
                    | None \<Rightarrow> Chain)
      in case chainLoop C (Some V) [] None {} of
           Inl e \<Rightarrow> Inl e
         | Inr (TyList, NextV) \<Rightarrow>
             (let Chain2 = Chain1 @ TyList;
                  Complete = chainComplete C NextV
              in Inr (Chain2, Complete,
                      if Chain2 \<noteq> [] \<and> \<not> Complete
                      then C\<lparr>typeCapSet := insert (typeHash C (fst (last Chain2)) DL) (typeCapSet C)\<rparr>
                      else C)))"

section \<open>The resolver: \<open>findCalleesWithMLTA\<close>\<close>

text \<open>
  \<open>getTargetsWithLayerType(TyHash, Idx, FS)\<close>: with \<open>Idx == -1\<close> the sets of all
  fields are added to \<open>FS\<close>, which is not cleared; otherwise \<open>FS\<close> is assigned.
\<close>

definition getTargetsWithLayerType :: "funcsmap \<Rightarrow> nat \<Rightarrow> int \<Rightarrow> func set \<Rightarrow> func set" where
  "getTargetsWithLayerType m TyHash Idx FS =
     (if Idx = - 1 then FS \<union> (\<Union>i. m TyHash i)
      else m TyHash Idx \<union> m TyHash (- 1))"

text \<open>
  The loop over \<open>PropSet\<close>, a \<open>std::set\<close> of pairs that is iterated in increasing
  order; \<open>FS2\<close> is the scratch set of the caller.
\<close>

fun propTargetsLoop :: "funcsmap \<Rightarrow> hashidx list \<Rightarrow> func set \<Rightarrow> func set \<Rightarrow> func set \<times> func set" where
  "propTargetsLoop m [] FS1 FS2 = (FS1, FS2)"
| "propTargetsLoop m (Prop # ps) FS1 FS2 =
     (let FS2' = getTargetsWithLayerType m (fst Prop) (snd Prop) FS2
      in propTargetsLoop m ps (FS1 \<union> FS2') FS2')"

definition intersectFuncSets :: "func set \<Rightarrow> func set \<Rightarrow> func set" where
  "intersectFuncSets FS1 FS2 = {F \<in> FS1. F \<in> FS2}"

text \<open>The local variables of \<open>findCalleesWithMLTA\<close> and the cache.\<close>

record mltaState =
  FS :: "func set"
  FS1 :: "func set"
  FS2 :: "func set"
  PrevLayerTy :: Type
  CV :: "val option"
  NextV :: "val option"
  LayerNo :: int
  ContinueNextLayer :: bool
  MatchedFuncsMap :: cache

text \<open>
  The body of the loop over \<open>TyList\<close> up to the intersection: \<open>layerLookup\<close> is
  \<open>None\<close> where the source leaves the loop with \<open>break\<close> on an escaped type.
\<close>

definition layerTargets :: "Ctx \<Rightarrow> dl \<Rightarrow> typeidx \<Rightarrow> mltaState \<Rightarrow> mltaState" where
  "layerTargets C DL TyIdx s =
     (let F1 = getTargetsWithLayerType (typeIdxFuncsMap C) (typeHash C (fst TyIdx) DL) (snd TyIdx) (FS1 s);
          PropSet = getDependentTypes (typeIdxPropMap C) (typeHash C (fst TyIdx) DL) (snd TyIdx) {};
          R = propTargetsLoop (typeIdxFuncsMap C) (sorted_list_of_set PropSet) F1 (FS2 s)
      in s\<lparr>FS1 := fst R, FS2 := snd R,
            MatchedFuncsMap := (MatchedFuncsMap s)(typeIdxHash C (fst TyIdx) DL (snd TyIdx) \<mapsto> fst R)\<rparr>)"

definition layerLookup :: "Ctx \<Rightarrow> dl \<Rightarrow> typeidx \<Rightarrow> mltaState \<Rightarrow> mltaState option" where
  "layerLookup C DL TyIdx s =
     (case MatchedFuncsMap s (typeIdxHash C (fst TyIdx) DL (snd TyIdx)) of
        Some Cached \<Rightarrow> Some (s\<lparr>FS1 := Cached\<rparr>)
      | None \<Rightarrow>
          if SOUND_MODE C \<and> typeIdxHash C (fst TyIdx) DL (snd TyIdx) \<in> typeEscapeSet C then None
          else if SOUND_MODE C \<and> typeIdxHash C (fst TyIdx) DL (- 1) \<in> typeEscapeSet C then None
          else Some (layerTargets C DL TyIdx s))"

fun layerLoop :: "Ctx \<Rightarrow> dl \<Rightarrow> typeidx list \<Rightarrow> mltaState \<Rightarrow> mltaState" where
  "layerLoop C DL [] s = s"
| "layerLoop C DL (TyIdx # rest) s =
     (if LayerNo s \<ge> MAX_TYPE_LAYER C then s
      else
        (case layerLookup C DL TyIdx (s\<lparr>LayerNo := LayerNo s + 1\<rparr>) of
           None \<Rightarrow> s\<lparr>LayerNo := LayerNo s + 1\<rparr>
         | Some s1 \<Rightarrow>
             (let s2 = s1\<lparr>FS2 := intersectFuncSets (FS1 s1) (FS s1),
                          FS := intersectFuncSets (FS1 s1) (FS s1),
                          CV := NextV s1\<rparr>
              in if SOUND_MODE C \<and> typeHash C (fst TyIdx) DL \<in> typeCapSet C
                 then s2\<lparr>ContinueNextLayer := False\<rparr>
                 else layerLoop C DL rest (s2\<lparr>PrevLayerTy := fst TyIdx\<rparr>))))"

lemma layerLookup_LayerNo: "layerLookup C DL TyIdx s = Some s1 \<Longrightarrow> LayerNo s1 = LayerNo s"
  by (auto simp: layerLookup_def layerTargets_def Let_def split: option.splits if_splits)

lemma layerLoop_LayerNo_mono: "LayerNo s \<le> LayerNo (layerLoop C DL TyList s)"
proof (induction TyList arbitrary: s)
  case Nil
  then show ?case by simp
next
  case (Cons TyIdx rest)
  show ?case
  proof (cases "layerLookup C DL TyIdx (s\<lparr>LayerNo := LayerNo s + 1\<rparr>)")
    case None
    then show ?thesis by simp
  next
    case (Some s1)
    have l: "LayerNo s1 = LayerNo s + 1" using layerLookup_LayerNo [OF Some] by simp
    let ?s2 = "s1\<lparr>FS2 := intersectFuncSets (FS1 s1) (FS s1),
                   FS := intersectFuncSets (FS1 s1) (FS s1), CV := NextV s1, PrevLayerTy := fst TyIdx\<rparr>"
    have "LayerNo ?s2 \<le> LayerNo (layerLoop C DL rest ?s2)" by (rule Cons.IH)
    then show ?thesis using Some l by (simp add: Let_def)
  qed
qed

lemma layerLoop_LayerNo_less:
  assumes "TyList \<noteq> []" "LayerNo s < MAX_TYPE_LAYER C"
  shows "LayerNo s < LayerNo (layerLoop C DL TyList s)"
proof -
  obtain TyIdx rest where t: "TyList = TyIdx # rest" using assms(1) by (cases TyList) auto
  show ?thesis
  proof (cases "layerLookup C DL TyIdx (s\<lparr>LayerNo := LayerNo s + 1\<rparr>)")
    case None
    then show ?thesis using assms(2) t by simp
  next
    case (Some s1)
    have l: "LayerNo s1 = LayerNo s + 1" using layerLookup_LayerNo [OF Some] by simp
    let ?s2 = "s1\<lparr>FS2 := intersectFuncSets (FS1 s1) (FS s1),
                   FS := intersectFuncSets (FS1 s1) (FS s1), CV := NextV s1, PrevLayerTy := fst TyIdx\<rparr>"
    have "LayerNo ?s2 \<le> LayerNo (layerLoop C DL rest ?s2)" by (rule layerLoop_LayerNo_mono)
    then show ?thesis using Some l assms(2) t by (simp add: Let_def)
  qed
qed

text \<open>The loop \<open>while (ContinueNextLayer)\<close>.\<close>

function mltaLoop :: "Ctx \<Rightarrow> dl \<Rightarrow> mltaState \<Rightarrow> error + mltaState" where
  "mltaLoop C DL s =
     (if LayerNo s \<ge> MAX_TYPE_LAYER C then Inr s
      else if SOUND_MODE C \<and> typeHash C (PrevLayerTy s) DL \<in> typeCapSet C then Inr s
      else
        (case nextLayerBaseType C (CV s) [] (NextV s) {} of
           Inl e \<Rightarrow> Inl e
         | Inr (ret, TyList, NextV', Visited) \<Rightarrow>
             if TyList = [] then Inr (s\<lparr>NextV := NextV'\<rparr>)
             else
               (let s' = layerLoop C DL TyList (s\<lparr>NextV := NextV'\<rparr>)
                in if ContinueNextLayer s' then mltaLoop C DL s' else Inr s')))"
  by pat_completeness auto

lemma mltaLoop_dom_all: "All mltaLoop_dom"
proof (relation "measure (\<lambda>(C, DL, s). nat (MAX_TYPE_LAYER C - LayerNo s))", goal_cases)
  case 1
  then show ?case by simp
next
  case (2 C DL s x2 ret y TyList z NextV' Visited s')
  have "LayerNo (s\<lparr>NextV := NextV'\<rparr>) < LayerNo (layerLoop C DL TyList (s\<lparr>NextV := NextV'\<rparr>))"
    using 2 by (intro layerLoop_LayerNo_less) auto
  then show ?case using 2 by simp
qed

termination mltaLoop
  by (rule mltaLoop_dom_all)

declare mltaLoop.simps [simp del]

text \<open>
  \<open>findCalleesWithMLTA(CI, FS)\<close>: the returned \<open>bool\<close>, the final \<open>FS\<close> and the
  cache \<open>MatchedFuncsMap\<close> after the query.
\<close>

definition findCalleesWithMLTA :: "Ctx \<Rightarrow> cache \<Rightarrow> CallSite \<Rightarrow> error + (bool \<times> func set \<times> cache)" where
  "findCalleesWithMLTA C Cache CI =
     (if sigFuncsMap C (callHash CI) = {} then Inr (False, {}, Cache)
      else
        (case mltaLoop C (callDL CI)
                \<lparr>FS = sigFuncsMap C (callHash CI), FS1 = {}, FS2 = {},
                 PrevLayerTy = callFunctionTy CI, CV = Some (calledOperand CI), NextV = None,
                 LayerNo = 1, ContinueNextLayer = True, MatchedFuncsMap = Cache\<rparr> of
           Inl e \<Rightarrow> Inl e
         | Inr s \<Rightarrow> Inr (True, FS s, MatchedFuncsMap s)))"

section \<open>Alias recovery: \<open>collectAliasStructPtr\<close>\<close>

text \<open>\<open>dyn_cast<CastInst>\<close> on an instruction, with the cast's operand.\<close>

fun castOperand :: "vkind \<Rightarrow> val option" where
  "castOperand (BitCast x) = Some x"
| "castOperand (CastOther x) = Some x"
| "castOperand (PtrToInt x) = Some x"
| "castOperand k = None"

fun isCallInst :: "vkind \<Rightarrow> bool" where
  "isCallInst (Call cv args) = True"
| "isCallInst k = False"

text \<open>
  The tests of the loop body on instruction \<open>I\<close> of a function of module \<open>M\<close>: the
  result is the cast's source \<open>FromV\<close> when no \<open>continue\<close> is taken before the map is
  looked at.
\<close>

definition aliasSource :: "typetabs \<Rightarrow> irtab \<Rightarrow> module \<Rightarrow> val \<Rightarrow> val option" where
  "aliasSource TT tab M I =
     (case castOperand (kindOf tab I) of
        None \<Rightarrow> None
      | Some FromV \<Rightarrow>
          if \<not> isCallInst (kindOf tab FromV) then None
          else if Int8PtrTy TT M \<noteq> typeOf tab FromV then None
          else if \<not> isPointerTy (typeOf tab I) then None
          else if \<not> isCompositeType (getPointerElementType (typeOf tab I)) then None
          else Some FromV)"

fun aliasLoop ::
  "typetabs \<Rightarrow> irtab \<Rightarrow> module \<Rightarrow> val list \<Rightarrow> (val \<rightharpoonup> val) \<Rightarrow> val set \<Rightarrow> (val \<rightharpoonup> val) \<times> val set" where
  "aliasLoop TT tab M [] AliasMap ToErase = (AliasMap, ToErase)"
| "aliasLoop TT tab M (I # Is) AliasMap ToErase =
     (case aliasSource TT tab M I of
        None \<Rightarrow> aliasLoop TT tab M Is AliasMap ToErase
      | Some FromV \<Rightarrow>
          if AliasMap FromV \<noteq> None then aliasLoop TT tab M Is AliasMap (insert FromV ToErase)
          else aliasLoop TT tab M Is (AliasMap(FromV \<mapsto> I)) ToErase)"

definition collectAliasStructPtr :: "typetabs \<Rightarrow> Ctx \<Rightarrow> Function \<Rightarrow> Ctx" where
  "collectAliasStructPtr TT C F =
     (let R = aliasLoop TT (IR C) (fparent F) (finsts F) (AliasStructPtrMap C (fid F)) {}
      in C\<lparr>AliasStructPtrMap :=
             (AliasStructPtrMap C)(fid F := (\<lambda>v. if v \<in> snd R then None else fst R v))\<rparr>)"


section \<open>Type confinement\<close>

text \<open>\<open>typeIdxFuncsMap[h][i].insert(F)\<close>\<close>

definition insertFunc :: "funcsmap \<Rightarrow> nat \<Rightarrow> int \<Rightarrow> func \<Rightarrow> funcsmap" where
  "insertFunc m h i F = m(h := (m h)(i := insert F (m h i)))"

text \<open>
  The loop of \<open>getBaseFunction\<close> strips bitcasts without a visited set; on a table with
  a cycle of bitcasts it does not return, which is the value \<open>None\<close> of the loop and the
  error \<open>NonTermination\<close> of \<open>getBaseFunction\<close>.
\<close>

partial_function (option) baseFunctionLoop :: "Ctx \<Rightarrow> val \<Rightarrow> func option option" where
  "baseFunctionLoop C CurV =
     (case kindOf (IR C) CurV of
        BitCast x \<Rightarrow>
          (case kindOf (IR C) x of
             FunctionV F \<Rightarrow>
               if \<not> isIntrinsic (Funcs C F) then Some (Some F) else baseFunctionLoop C x
           | _ \<Rightarrow> baseFunctionLoop C x)
      | _ \<Rightarrow> Some None)"

definition getBaseFunction :: "Ctx \<Rightarrow> val \<Rightarrow> error + func option" where
  "getBaseFunction C V =
     (case kindOf (IR C) V of
        FunctionV F \<Rightarrow> if \<not> isIntrinsic (Funcs C F) then Inr (Some F) else Inr None
      | _ \<Rightarrow> (case baseFunctionLoop C V of None \<Rightarrow> Inl NonTermination | Some r \<Rightarrow> Inr r))"

fun insertChain :: "Ctx \<Rightarrow> dl \<Rightarrow> func \<Rightarrow> typeidx list \<Rightarrow> Ctx" where
  "insertChain C DL F [] = C"
| "insertChain C DL F (TI # rest) =
     insertChain (C\<lparr>typeIdxFuncsMap :=
                     insertFunc (typeIdxFuncsMap C) (typeHash C (fst TI) DL) (snd TI) F\<rparr>) DL F rest"

definition confineTargetFunction :: "Ctx \<Rightarrow> val \<Rightarrow> func \<Rightarrow> dl \<Rightarrow> error + Ctx" where
  "confineTargetFunction C V F DL =
     (if isIntrinsic (Funcs C F) then Inr C
      else
        (case getBaseTypeChain C [] V DL of
           Inl e \<Rightarrow> Inl e
         | Inr (TyChain, Complete, C1) \<Rightarrow>
             (let C2 = insertChain C1 DL F TyChain
              in if \<not> Complete then
                   (if TyChain \<noteq> []
                    then Inr (C2\<lparr>typeCapSet :=
                                   insert (typeHash C2 (fst (last TyChain)) DL) (typeCapSet C2)\<rparr>)
                    else Inr (C2\<lparr>typeCapSet := insert (funcHash (Funcs C2 F)) (typeCapSet C2)\<rparr>))
                 else Inr C2)))"

subsection \<open>\<open>typeConfineInFunction\<close>\<close>

fun confineEach :: "Ctx \<Rightarrow> dl \<Rightarrow> func \<Rightarrow> val list \<Rightarrow> error + Ctx" where
  "confineEach C DL F [] = Inr C"
| "confineEach C DL F (U # Us) =
     (case confineTargetFunction C U F DL of
        Inl e \<Rightarrow> Inl e
      | Inr C' \<Rightarrow> confineEach C' DL F Us)"

text \<open>
  \<open>CallBase::isIndirectCall\<close>: the called operand is neither a function nor another
  constant, and the call is not inline assembly. Instructions and arguments are the
  values of the table that are not constants.
\<close>

definition isIndirectCall :: "irtab \<Rightarrow> val \<Rightarrow> bool" where
  "isIndirectCall tab CalledV = (funcOf tab CalledV \<noteq> None \<or> kindOf tab CalledV = Argument)"

text \<open>\<open>getParamByArgNo(F, ArgNo)\<close> takes the operand number as a \<open>uint8_t\<close>.\<close>

definition getParamByArgNo :: "Function \<Rightarrow> nat \<Rightarrow> val option" where
  "getParamByArgNo F OpNo =
     (let ArgNo = OpNo mod 256
      in if ArgNo \<ge> length (fargs F) then None else Some (fargs F ! ArgNo))"

fun isStoreOrBitCast :: "vkind \<Rightarrow> bool" where
  "isStoreOrBitCast (Store v p) = True"
| "isStoreOrBitCast (BitCast x) = True"
| "isStoreOrBitCast k = False"

text \<open>The body of the loop over the operands of a call; \<open>ON\<close> is an operand with its number.\<close>

definition confineCallOperand :: "Ctx \<Rightarrow> dl \<Rightarrow> val \<Rightarrow> val \<times> nat \<Rightarrow> error + Ctx" where
  "confineCallOperand C DL CalledV ON =
     (case kindOf (IR C) (fst ON) of
        FunctionV F \<Rightarrow>
          if isIntrinsic (Funcs C F) then Inr C
          else if isIndirectCall (IR C) CalledV then confineTargetFunction C (fst ON) F DL
          else
            (case kindOf (IR C) CalledV of
               FunctionV CF0 \<Rightarrow>
                 (case (if isDeclaration (Funcs C CF0) then GlobalFuncs C CF0 else Some CF0) of
                    None \<Rightarrow> Inr C
                  | Some CF \<Rightarrow>
                      (case getParamByArgNo (Funcs C CF) (snd ON) of
                         None \<Rightarrow> Inr C
                       | Some Arg \<Rightarrow>
                           confineEach C DL F
                             (filter (\<lambda>U. isStoreOrBitCast (kindOf (IR C) U)) (users (IR C) Arg))))
             | _ \<Rightarrow> Inr C)
      | _ \<Rightarrow> Inr C)"

fun confineCallOperands :: "Ctx \<Rightarrow> dl \<Rightarrow> val \<Rightarrow> (val \<times> nat) list \<Rightarrow> error + Ctx" where
  "confineCallOperands C DL CalledV [] = Inr C"
| "confineCallOperands C DL CalledV (ON # ONs) =
     (case confineCallOperand C DL CalledV ON of
        Inl e \<Rightarrow> Inl e
      | Inr C' \<Rightarrow> confineCallOperands C' DL CalledV ONs)"

text \<open>The loop body of \<open>typeConfineInFunction\<close> on instruction \<open>I\<close> of function \<open>F\<close>.\<close>

definition confineInst :: "Ctx \<Rightarrow> dl \<Rightarrow> Function \<Rightarrow> val \<Rightarrow> error + Ctx" where
  "confineInst C DL F I =
     (case kindOf (IR C) I of
        Store VO PO \<Rightarrow>
          (case getBaseFunction C (stripPointerCasts C VO) of
             Inl e \<Rightarrow> Inl e
           | Inr None \<Rightarrow> Inr C
           | Inr (Some CF) \<Rightarrow>
               if isIntrinsic F then Inr C else confineTargetFunction C PO CF DL)
      | Call CalledV args \<Rightarrow>
          confineCallOperands C DL CalledV (zip (args @ [CalledV]) [0..<Suc (length args)])
      | _ \<Rightarrow> Inr C)"

fun confineInsts :: "Ctx \<Rightarrow> dl \<Rightarrow> Function \<Rightarrow> val list \<Rightarrow> error + Ctx" where
  "confineInsts C DL F [] = Inr C"
| "confineInsts C DL F (I # Is) =
     (case confineInst C DL F I of
        Inl e \<Rightarrow> Inl e
      | Inr C' \<Rightarrow> confineInsts C' DL F Is)"

definition typeConfineInFunction :: "Ctx \<Rightarrow> Function \<Rightarrow> dl \<Rightarrow> error + Ctx" where
  "typeConfineInFunction C F DL = confineInsts C DL F (finsts F)"

subsection \<open>\<open>typeConfineInInitializer\<close>\<close>

text \<open>
  \<open>ContainersMap\<close>, from an operand to the user that holds it and the operand number;
  a later entry for the same operand replaces the earlier one.
\<close>

type_synonym containers = "(val \<times> (val \<times> nat)) list"

text \<open>
  The loop that adds the found function to all containers, from the operand upwards.
\<close>

function climbContainers :: "Ctx \<Rightarrow> dl \<Rightarrow> containers \<Rightarrow> func \<Rightarrow> val \<Rightarrow> val set \<Rightarrow> Ctx" where
  "climbContainers C DL CM FoundF CurV Visited =
     (case map_of CM CurV of
        None \<Rightarrow> C
      | Some Container \<Rightarrow>
          (let C' = C\<lparr>typeIdxFuncsMap :=
                        insertFunc (typeIdxFuncsMap C)
                          (typeHash C (typeOf (IR C) (fst Container)) DL)
                          (if MLTA_FIELD_INSENSITIVE C then 0 else int (snd Container))
                          FoundF\<rparr>
           in if fst Container \<in> insert CurV Visited then C'
              else climbContainers C' DL CM FoundF (fst Container) (insert CurV Visited)))"
  by pat_completeness auto

lemma climbContainers_dom_all: "All climbContainers_dom"
proof (relation "measure (\<lambda>(C, DL, CM, FoundF, CurV, Visited).
                    2 * card (fst ` set CM - Visited) + (if CurV \<in> Visited then 1 else 0))",
       goal_cases)
  case 1
  then show ?case by simp
next
  case (2 C DL CM FoundF CurV Visited Container C')
  have inD: "CurV \<in> fst ` set CM"
    using 2(1) by (metis map_of_SomeD fst_conv image_eqI)
  show ?case
  proof (cases "CurV \<in> Visited")
    case True
    then have "insert CurV Visited = Visited" by auto
    then show ?thesis using 2 True by simp
  next
    case False
    have "fst ` set CM - insert CurV Visited \<subset> fst ` set CM - Visited"
      using inD False by auto
    then have "card (fst ` set CM - insert CurV Visited) < card (fst ` set CM - Visited)"
      by (intro psubset_card_mono) auto
    then show ?thesis using 2 False by simp
  qed
qed

termination climbContainers
  by (rule climbContainers_dom_all)

declare climbContainers.simps [simp del]

fun isGlobalVariable :: "vkind \<Rightarrow> bool" where
  "isGlobalVariable (GlobalVariable ini) = True"
| "isGlobalVariable k = False"

type_synonym initState = "val list \<times> containers \<times> Ctx"

text \<open>A function was found at operand \<open>Opd\<close>: add it to all containers unless it is intrinsic.\<close>

definition foundFunction :: "dl \<Rightarrow> val \<Rightarrow> func \<Rightarrow> initState \<Rightarrow> initState" where
  "foundFunction DL Opd F S =
     (case S of (LU, CM, C) \<Rightarrow>
        (LU, CM, if \<not> isIntrinsic (Funcs C F) then climbContainers C DL CM F Opd {} else C))"

text \<open>
  The body of the loop over the operands of the user \<open>U\<close> in the initializer of \<open>GV\<close>;
  \<open>ON\<close> is the operand with its number, \<open>LU\<close> the work list. Operands of constants are
  constants, so \<open>dyn_cast<User>\<close> on them does not fail.
\<close>

definition initOperand :: "dl \<Rightarrow> val \<Rightarrow> val \<Rightarrow> val \<times> nat \<Rightarrow> initState \<Rightarrow> initState" where
  "initOperand DL GV U ON S =
     (case S of (LU, CM0, C) \<Rightarrow>
        (let Opd = fst ON;
             OTy = typeOf (IR C) Opd;
             CM = (Opd, (U, snd ON)) # CM0
         in case kindOf (IR C) Opd of
              FunctionV F \<Rightarrow> foundFunction DL Opd F (LU, CM, C)
            | k \<Rightarrow>
                if isCompositeType OTy then (LU @ [Opd], CM, C)
                else
                  (case k of
                     PtrToInt x \<Rightarrow>
                       (case kindOf (IR C) x of
                          FunctionV F \<Rightarrow> foundFunction DL Opd F (LU, CM, C)
                        | _ \<Rightarrow> (LU @ [x], CM, C))
                   | BitCast x \<Rightarrow>
                       (case kindOf (IR C) x of
                          FunctionV CF \<Rightarrow>
                            foundFunction DL Opd CF
                              (LU, CM,
                               if \<not> isStructTy (typeOf (IR C) U)
                               then C\<lparr>VTableFuncsMap :=
                                        (VTableFuncsMap C)(GV := insert CF (VTableFuncsMap C GV))\<rparr>
                               else C)
                        | _ \<Rightarrow> (LU @ [x], CM, C))
                   | _ \<Rightarrow>
                       if isPointerTy OTy then
                         (if k = ConstantPointerNull then (LU, CM, C)
                          else (LU @ [Opd], CM,
                                if isGlobalVariable k \<and> isStructTy (getPointerElementType OTy)
                                then C\<lparr>typeCapSet :=
                                         insert (typeHash C (getPointerElementType OTy) DL) (typeCapSet C)\<rparr>
                                else C))
                       else (LU, CM, C))))"

fun numElements :: "Type \<Rightarrow> nat" where
  "numElements (c, StructTy n ts) = length ts"
| "numElements (c, t) = 0"

text \<open>Every value that is an operand of a value of the table.\<close>

definition valUniverse :: "irtab \<Rightarrow> val set" where
  "valUniverse tab = (\<Union>n \<in> set tab. set (operands (vkind n)))"

definition initOperands :: "dl \<Rightarrow> val \<Rightarrow> val \<Rightarrow> initState \<Rightarrow> initState" where
  "initOperands DL GV U S =
     (case S of (LU, CM, C) \<Rightarrow>
        fold (initOperand DL GV U)
          (zip (operands (kindOf (IR C) U)) [0..<length (operands (kindOf (IR C) U))]) S)"

lemma climbContainers_IR: "IR (climbContainers C DL CM FoundF CurV Visited) = IR C"
proof (induction C DL CM FoundF CurV Visited rule: climbContainers.induct)
  case (1 C DL CM FoundF CurV Visited)
  show ?case
  proof (cases "map_of CM CurV")
    case None
    then show ?thesis by (simp add: climbContainers.simps [of C])
  next
    case (Some Container)
    let ?C' = "C\<lparr>typeIdxFuncsMap :=
                        insertFunc (typeIdxFuncsMap C)
                          (typeHash C (typeOf (IR C) (fst Container)) DL)
                          (if MLTA_FIELD_INSENSITIVE C then 0 else int (snd Container))
                          FoundF\<rparr>"
    show ?thesis
    proof (cases "fst Container \<in> insert CurV Visited")
      case True
      then show ?thesis using Some by (simp add: climbContainers.simps [of C] Let_def)
    next
      case False
      from "1.IH" [OF Some refl False] Some False show ?thesis
        by (simp add: climbContainers.simps [of C] Let_def)
    qed
  qed
qed

lemma operand_in_universe:
  "x \<in> set (operands (kindOf tab v)) \<Longrightarrow> x \<in> valUniverse tab"
  by (auto simp: kindOf_def valUniverse_def split: if_splits)

lemma foundFunction_keeps:
  "foundFunction DL Opd F (LU, CM, C) = (LU', CM', C') \<Longrightarrow> LU' = LU \<and> IR C' = IR C"
  by (auto simp: foundFunction_def climbContainers_IR split: if_splits)

lemma initOperand_keeps:
  assumes "initOperand DL GV U ON (LU, CM, C) = (LU', CM', C')"
    and "fst ON \<in> valUniverse (IR C)"
  shows "IR C' = IR C \<and> set LU' \<subseteq> set LU \<union> valUniverse (IR C)"
proof -
  have sub: "\<And>x. kindOf (IR C) (fst ON) = PtrToInt x \<or> kindOf (IR C) (fst ON) = BitCast x
               \<Longrightarrow> x \<in> valUniverse (IR C)"
    by (rule operand_in_universe [of _ "IR C" "fst ON"]) auto
  show ?thesis
    using assms sub
    by (auto simp: initOperand_def Let_def split: vkind.splits if_splits
             dest!: foundFunction_keeps)
qed

lemma fold_initOperand_keeps:
  assumes "fold (initOperand DL GV U) ONs (LU, CM, C) = (LU', CM', C')"
    and "fst ` set ONs \<subseteq> valUniverse (IR C)"
  shows "IR C' = IR C \<and> set LU' \<subseteq> set LU \<union> valUniverse (IR C)"
  using assms
proof (induction ONs arbitrary: LU CM C)
  case Nil
  then show ?case by simp
next
  case (Cons ON ONs)
  obtain LU1 CM1 C1 where s1: "initOperand DL GV U ON (LU, CM, C) = (LU1, CM1, C1)"
    by (cases "initOperand DL GV U ON (LU, CM, C)")
  have k1: "IR C1 = IR C \<and> set LU1 \<subseteq> set LU \<union> valUniverse (IR C)"
    using s1 Cons.prems(2) by (intro initOperand_keeps) auto
  have "fold (initOperand DL GV U) ONs (LU1, CM1, C1) = (LU', CM', C')"
    using Cons.prems(1) s1 by simp
  from Cons.IH [OF this] Cons.prems(2) k1
  show ?case by auto
qed

lemma initOperands_keeps:
  assumes "initOperands DL GV U (LU, CM, C) = (LU', CM', C')"
  shows "IR C' = IR C \<and> set LU' \<subseteq> set LU \<union> valUniverse (IR C)"
proof -
  let ?ops = "operands (kindOf (IR C) U)"
  have "fst ` set (zip ?ops [0..<length ?ops]) \<subseteq> set ?ops"
    by (auto dest: set_zip_leftD)
  then have "fst ` set (zip ?ops [0..<length ?ops]) \<subseteq> valUniverse (IR C)"
    using operand_in_universe [of _ "IR C" U] by blast
  with assms show ?thesis
    unfolding initOperands_def by (intro fold_initOperand_keeps [of DL GV U _ LU CM C LU' CM' C']) auto
qed

text \<open>The loop \<open>while (!LU.empty())\<close> of \<open>typeConfineInInitializer\<close>.\<close>

function initLoop :: "dl \<Rightarrow> val \<Rightarrow> val list \<Rightarrow> val set \<Rightarrow> containers \<Rightarrow> Ctx \<Rightarrow> error + Ctx" where
  "initLoop DL GV [] Visited CM C = Inr C"
| "initLoop DL GV (U # LU) Visited CM C =
     (if U \<in> Visited then initLoop DL GV LU Visited CM C
      else if isFunctionTy (typeOf (IR C) U) then Inl AssertionFailure
      else if isStructTy (typeOf (IR C) U) \<and> operands (kindOf (IR C) U) = []
           then initLoop DL GV LU (insert U Visited) CM C
      else if isStructTy (typeOf (IR C) U)
              \<and> numElements (typeOf (IR C) U) \<noteq> length (operands (kindOf (IR C) U))
           then Inl AssertionFailure
      else
        (case initOperands DL GV U (LU, CM, C) of
           (LU', CM', C') \<Rightarrow> initLoop DL GV LU' (insert U Visited) CM' C'))"
  by pat_completeness auto

lemma valUniverse_finite: "finite (valUniverse tab)"
  by (simp add: valUniverse_def)

lemma initLoop_dom_all: "All initLoop_dom"
proof (relation "measures [\<lambda>(DL, GV, LU, Visited, CM, C). card ((valUniverse (IR C) \<union> set LU) - Visited),
                          \<lambda>(DL, GV, LU, Visited, CM, C). length LU]", goal_cases)
  case 1
  then show ?case by simp
next
  case (2 DL GV U LU Visited CM C)
  then have "(valUniverse (IR C) \<union> set LU) - Visited = (valUniverse (IR C) \<union> set (U # LU)) - Visited"
    by auto
  then show ?case by simp
next
  case (3 DL GV U LU Visited CM C)
  have "(valUniverse (IR C) \<union> set LU) - insert U Visited \<subset> (valUniverse (IR C) \<union> set (U # LU)) - Visited"
    using 3(1) by auto
  then have "card ((valUniverse (IR C) \<union> set LU) - insert U Visited)
               < card ((valUniverse (IR C) \<union> set (U # LU)) - Visited)"
    using valUniverse_finite by (intro psubset_card_mono) auto
  then show ?case by simp
next
  case (4 DL GV U LU Visited CM C LU' y CM' C')
  have r: "initOperands DL GV U (LU, CM, C) = (LU', CM', C')" using 4(5,6) by simp
  note k = initOperands_keeps [OF r]
  have "(valUniverse (IR C') \<union> set LU') - insert U Visited \<subset> (valUniverse (IR C) \<union> set (U # LU)) - Visited"
    using 4(1) k by auto
  then have "card ((valUniverse (IR C') \<union> set LU') - insert U Visited)
               < card ((valUniverse (IR C) \<union> set (U # LU)) - Visited)"
    using valUniverse_finite by (intro psubset_card_mono) auto
  then show ?case using 4(6) [symmetric] by simp
qed

termination initLoop
  by (rule initLoop_dom_all)

declare initLoop.simps [simp del]

text \<open>
  \<open>typeConfineInInitializer(GV, DL)\<close>; \<open>getInitializer\<close> asserts that the global has an
  initializer.
\<close>

definition typeConfineInInitializer :: "Ctx \<Rightarrow> val \<Rightarrow> dl \<Rightarrow> error + Ctx" where
  "typeConfineInInitializer C GV DL =
     (case kindOf (IR C) GV of
        GlobalVariable (Some Ini) \<Rightarrow>
          (case kindOf (IR C) Ini of
             ConstantAggregate ops \<Rightarrow> initLoop DL GV [Ini] {} [] C
           | _ \<Rightarrow> Inr C)
      | _ \<Rightarrow> Inl AssertionFailure)"

subsection \<open>The confinement phase\<close>

text \<open>
  The pass that calls \<open>typeConfineInInitializer\<close> for the global variables and
  \<open>typeConfineInFunction\<close> for the functions of every module is not part of this file;
  the confinement phase is a sequence of such calls, in any order.
\<close>

datatype confineCall = ConfineInitializer val dl | ConfineFunction Function dl

fun runConfinement :: "Ctx \<Rightarrow> confineCall list \<Rightarrow> error + Ctx" where
  "runConfinement C [] = Inr C"
| "runConfinement C (ConfineInitializer GV DL # calls) =
     (case typeConfineInInitializer C GV DL of
        Inl e \<Rightarrow> Inl e
      | Inr C' \<Rightarrow> runConfinement C' calls)"
| "runConfinement C (ConfineFunction F DL # calls) =
     (case typeConfineInFunction C F DL of
        Inl e \<Rightarrow> Inl e
      | Inr C' \<Rightarrow> runConfinement C' calls)"

section \<open>Verified properties\<close>

subsection \<open>Fuzzy type match\<close>

lemma peelPointers_swap: "peelPointers a b = (x, y) \<Longrightarrow> peelPointers b a = (y, x)"
  by (induction a b arbitrary: x y rule: peelPointers.induct) simp_all

text \<open>
  With the two modules kept in place the match does not depend on the order of the two
  types: both disjuncts of the last test read \<open>Int8PtrTy[M1]\<close> and \<open>IntPtrTy[M2]\<close>.
\<close>

lemma fuzzyTypeMatch_sym_same_modules:
  "fuzzyTypeMatch TT A B M1 M2 = fuzzyTypeMatch TT B A M1 M2"
proof (cases "A = B")
  case True
  then show ?thesis by simp
next
  case False
  obtain x y where p: "peelPointers (snd A) (snd B) = (x, y)"
    by (cases "peelPointers (snd A) (snd B)")
  have q: "peelPointers (snd B) (snd A) = (y, x)"
    using p by (rule peelPointers_swap)
  have ne: "B \<noteq> A" using False by blast
  show ?thesis
    unfolding fuzzyTypeMatch_def Let_def p q fst_conv snd_conv
    using False ne by (simp only: if_False if_bool_eq_conj simp_thms) metis
qed

text \<open>
  Two modules, each in its own context, both with a 64-bit data layout: module \<open>M\<close>
  has the byte pointer \<open>i8*\<close> and the pointer-sized integer \<open>i64\<close> of context \<open>M\<close>.
\<close>

definition twoModules :: typetabs where
  "twoModules = \<lparr>Int8PtrTy = (\<lambda>M. (M, PointerTy (IntegerTy 8))),
                 IntPtrTy = (\<lambda>M. (M, IntegerTy 64))\<rparr>"

text \<open>
  Claim C2 (fuzzy-match symmetry, \<open>fuzzyTypeMatch(A, B, M1, M2) = fuzzyTypeMatch(B, A, M2, M1)\<close>)
  fails on the code: the byte pointer of module 1 matches the pointer-sized integer of
  module 2, but with the argument pairs exchanged the match is refused, because the second
  disjunct compares \<open>Ty2\<close> with \<open>Int8PtrTy[M1]\<close> and \<open>Ty1\<close> with \<open>IntPtrTy[M2]\<close>.
\<close>

theorem fuzzyTypeMatch_swapped_pairs_differ:
  "fuzzyTypeMatch twoModules (1, PointerTy (IntegerTy 8)) (2, IntegerTy 64) 1 2 = True
   \<and> fuzzyTypeMatch twoModules (2, IntegerTy 64) (1, PointerTy (IntegerTy 8)) 2 1 = False"
  by (simp add: fuzzyTypeMatch_def twoModules_def)

subsection \<open>Signature matching\<close>

text \<open>
  A call with one \<open>i32\<close> argument and a variadic function with two fixed \<open>i32\<close>
  parameters whose hash differs from the call's.
\<close>

definition oneArgCall :: CallSite where
  "oneArgCall = \<lparr>isInlineAsm = False, callHash = 200, callArgTys = [(1, IntegerTy 32)],
                  callTy = (1, IntegerTy 32), callerModule = 1, calledOperand = 0,
                  callFunctionTy = (1, FunctionTy (IntegerTy 32) [IntegerTy 32] False), callDL = 0\<rparr>"

definition varArgFunc :: Function where
  "varArgFunc = \<lparr>fid = 7, isVarArg = True, argTys = [(1, IntegerTy 32), (1, IntegerTy 32)],
                  returnTy = (1, IntegerTy 32), isIntrinsic = False, isDeclaration = False,
                  fparent = 1, funcHash = 100, fargs = [], finsts = []\<rparr>"

text \<open>
  Claim C10 (every read of a caller argument in \<open>findCalleesWithType\<close> is inside the
  call's argument list, also for a variadic function with more fixed parameters than the
  call has arguments) fails on the code: for the second parameter of the variadic function
  the loop reads the call's argument at position 1, and the call has one argument.
\<close>

theorem findCalleesWithType_vararg_reads_past_args:
  "findCalleesWithType twoModules [varArgFunc] Map.empty oneArgCall {} = Inl ArgReadOutOfBounds"
  by (simp add: findCalleesWithType_def considerFunc_def varArgFunc_def oneArgCall_def
      fuzzyTypeMatch_def)

text \<open>
  When the arity test applies (the function is not variadic) every read is in range:
  the loop never fails.
\<close>

lemma matchArgs_in_bounds:
  "AI + length FIs \<le> length args \<Longrightarrow> \<exists>b. matchArgs TT CalleeM CallerM FIs args AI = Inr b"
  by (induction FIs arbitrary: AI) auto

lemma considerFunc_fixed_arity_ok:
  "\<not> isVarArg F \<Longrightarrow> \<exists>S'. considerFunc TT CI F S = Inr S'"
proof (cases "length (argTys F) = length (callArgTys CI)")
  case True
  assume "\<not> isVarArg F"
  from matchArgs_in_bounds [of 0 "argTys F" "callArgTys CI" TT "fparent F" "callerModule CI"] True
  obtain b where "matchArgs TT (fparent F) (callerModule CI) (argTys F) (callArgTys CI) 0 = Inr b"
    by auto
  then show ?thesis by (simp add: considerFunc_def)
next
  case False
  assume "\<not> isVarArg F"
  then show ?thesis using False by (simp add: considerFunc_def)
qed

subsection \<open>Dependent types\<close>

lemma visited_successors_closed:
  assumes I1: "E `` V \<subseteq> V \<union> L"
    and v: "v \<in> V" and r: "(v, n) \<in> E\<^sup>+"
  shows "n \<in> E `` V \<union> E\<^sup>+ `` L"
  using r
proof (induction rule: trancl_induct)
  case (base y)
  then show ?case using v by blast
next
  case (step y z)
  from step.IH show ?case
  proof
    assume "y \<in> E `` V"
    then have "y \<in> V \<or> y \<in> L" using I1 by blast
    then show ?thesis using step.hyps(2) by blast
  next
    assume "y \<in> E\<^sup>+ `` L"
    then show ?thesis using step.hyps(2) by (blast intro: trancl_into_trancl)
  qed
qed

lemma trancl_Image_step: "E\<^sup>+ `` A = E `` A \<union> E\<^sup>+ `` (E `` A)"
proof
  show "E\<^sup>+ `` A \<subseteq> E `` A \<union> E\<^sup>+ `` (E `` A)"
  proof
    fix n assume "n \<in> E\<^sup>+ `` A"
    then obtain a where a: "a \<in> A" "(a, n) \<in> E\<^sup>+" by blast
    from a(2) show "n \<in> E `` A \<union> E\<^sup>+ `` (E `` A)"
      using a(1) by (cases rule: converse_tranclE) blast+
  qed
next
  show "E `` A \<union> E\<^sup>+ `` (E `` A) \<subseteq> E\<^sup>+ `` A"
    by (blast intro: trancl_into_trancl2)
qed

lemma propEdges_Image:
  "propEdges m `` {TI} = set (propLookup m (fst TI) (snd TI)) \<union> set (propLookup m (fst TI) (- 1))"
  by (auto simp: propEdges_def)

text \<open>
  The loop invariant: the successors of every visited node are in \<open>PropSet\<close>, and are
  visited or queued. Then the loop adds exactly what the queue reaches.
\<close>

lemma getDependentTypesLoop_adds:
  "propEdges m `` Visited \<subseteq> Visited \<union> set LT \<Longrightarrow> propEdges m `` Visited \<subseteq> PropSet \<Longrightarrow>
   getDependentTypesLoop m LT Visited PropSet = PropSet \<union> (propEdges m)\<^sup>+ `` set LT"
proof (induction m LT Visited PropSet rule: getDependentTypesLoop.induct)
  case (1 m Visited PropSet)
  then show ?case by simp
next
  case (2 m TI LT Visited PropSet)
  let ?E = "propEdges m"
  let ?S = "?E `` {TI}"
  show ?case
  proof (cases "TI \<in> Visited")
    case True
    have I1: "?E `` Visited \<subseteq> Visited \<union> set LT" using "2.prems"(1) True by auto
    have ih: "getDependentTypesLoop m LT Visited PropSet = PropSet \<union> ?E\<^sup>+ `` set LT"
      using "2.IH"(1) [OF True I1 "2.prems"(2)] .
    have "?E\<^sup>+ `` {TI} \<subseteq> PropSet \<union> ?E\<^sup>+ `` set LT"
    proof
      fix n assume "n \<in> ?E\<^sup>+ `` {TI}"
      then have "(TI, n) \<in> ?E\<^sup>+" by blast
      from visited_successors_closed [OF I1 True this]
      show "n \<in> PropSet \<union> ?E\<^sup>+ `` set LT" using "2.prems"(2) by blast
    qed
    then have "PropSet \<union> ?E\<^sup>+ `` set (TI # LT) = PropSet \<union> ?E\<^sup>+ `` set LT"
      by auto
    then show ?thesis using ih True by simp
  next
    case False
    let ?LT' = "LT @ propLookup m (fst TI) (snd TI) @ propLookup m (fst TI) (- 1)"
    let ?P' = "PropSet \<union> set (propLookup m (fst TI) (snd TI)) \<union> set (propLookup m (fst TI) (- 1))"
    have sLT: "set ?LT' = set LT \<union> ?S" by (auto simp: propEdges_Image)
    have sP: "?P' = PropSet \<union> ?S" by (auto simp: propEdges_Image)
    have I1: "?E `` insert TI Visited \<subseteq> insert TI Visited \<union> set ?LT'"
      unfolding sLT using "2.prems"(1) by auto
    have I2: "?E `` insert TI Visited \<subseteq> ?P'"
      unfolding sP using "2.prems"(2) by auto
    have ih: "getDependentTypesLoop m ?LT' (insert TI Visited) ?P' = ?P' \<union> ?E\<^sup>+ `` set ?LT'"
      using "2.IH"(2) [OF False I1 I2] .
    have u: "?E\<^sup>+ `` {TI} = ?S \<union> ?E\<^sup>+ `` ?S" by (rule trancl_Image_step)
    have "?P' \<union> ?E\<^sup>+ `` set ?LT' = PropSet \<union> ?E\<^sup>+ `` set (TI # LT)"
      unfolding sLT sP using u by auto
    then show ?thesis using ih False by simp
  qed
qed

lemma getDependentTypes_adds:
  "getDependentTypes m h Idx PropSet = PropSet \<union> (propEdges m)\<^sup>+ `` {(h, Idx)}"
proof -
  have "getDependentTypesLoop m [(h, Idx)] {} PropSet
          = PropSet \<union> (propEdges m)\<^sup>+ `` set [(h, Idx)]"
    by (rule getDependentTypesLoop_adds) simp_all
  then show ?thesis by (simp add: getDependentTypes_def)
qed

text \<open>
  Claim C5 (propagation closure): for every type hash \<open>h\<close> and index \<open>Idx\<close>,
  \<open>getDependentTypes\<close> adds to the caller's \<open>PropSet\<close> exactly the pairs that are
  reached from \<open>(h, Idx)\<close> along the edges of \<open>typeIdxPropMap\<close>, where from every node
  \<open>(h', j)\<close> the edges under \<open>[h'][j]\<close> and under \<open>[h'][-1]\<close> are followed: the pairs
  at the end of a path of one or more edges. The start itself is inserted only when it
  lies on a cycle; together with the start the set is the one reachable by paths of any
  length. The traversal terminates on every map: \<open>getDependentTypesLoop\<close> is a total
  function, by the finiteness of the stored pairs.
\<close>

theorem getDependentTypes_reachable:
  "getDependentTypes m h Idx PropSet = PropSet \<union> {n. ((h, Idx), n) \<in> (propEdges m)\<^sup>+}
   \<and> insert (h, Idx) (getDependentTypes m h Idx PropSet)
       = PropSet \<union> {n. ((h, Idx), n) \<in> (propEdges m)\<^sup>*}"
proof -
  have a: "getDependentTypes m h Idx PropSet = PropSet \<union> {n. ((h, Idx), n) \<in> (propEdges m)\<^sup>+}"
    using getDependentTypes_adds [of m h Idx PropSet] by auto
  have "{n. ((h, Idx), n) \<in> (propEdges m)\<^sup>*}
          = insert (h, Idx) {n. ((h, Idx), n) \<in> (propEdges m)\<^sup>+}"
    by (auto simp: rtrancl_eq_or_trancl)
  then show ?thesis using a by auto
qed

subsection \<open>The resolver\<close>

lemma layerLookup_FS: "layerLookup C DL TyIdx s = Some s1 \<Longrightarrow> FS s1 = FS s"
  by (auto simp: layerLookup_def layerTargets_def Let_def split: option.splits if_splits)

lemma intersectFuncSets_subset: "intersectFuncSets A B \<subseteq> B"
  by (auto simp: intersectFuncSets_def)

lemma layerLoop_FS_subset: "FS (layerLoop C DL TyList s) \<subseteq> FS s"
proof (induction TyList arbitrary: s)
  case Nil
  then show ?case by simp
next
  case (Cons TyIdx rest)
  show ?case
  proof (cases "layerLookup C DL TyIdx (s\<lparr>LayerNo := LayerNo s + 1\<rparr>)")
    case None
    then show ?thesis by simp
  next
    case (Some s1)
    have f: "FS s1 = FS s" using layerLookup_FS [OF Some] by simp
    let ?s2 = "s1\<lparr>FS2 := intersectFuncSets (FS1 s1) (FS s1),
                   FS := intersectFuncSets (FS1 s1) (FS s1), CV := NextV s1, PrevLayerTy := fst TyIdx\<rparr>"
    have "FS (layerLoop C DL rest ?s2) \<subseteq> FS ?s2" by (rule Cons.IH)
    also have "FS ?s2 \<subseteq> FS s" using f intersectFuncSets_subset [of "FS1 s1" "FS s1"] by simp
    finally show ?thesis using Some f intersectFuncSets_subset [of "FS1 s1" "FS s1"]
      by (simp add: Let_def)
  qed
qed

lemma mltaLoop_FS_subset: "mltaLoop C DL s = Inr s' \<Longrightarrow> FS s' \<subseteq> FS s"
proof (induction C DL s arbitrary: s' rule: mltaLoop.induct)
  case (1 C DL s)
  note [simp] = mltaLoop.simps [of C DL s]
  show ?case
  proof (cases "LayerNo s \<ge> MAX_TYPE_LAYER C \<or> (SOUND_MODE C \<and> typeHash C (PrevLayerTy s) DL \<in> typeCapSet C)")
    case True
    then show ?thesis using "1.prems" by (auto split: if_splits)
  next
    case False
    then have g1: "\<not> MAX_TYPE_LAYER C \<le> LayerNo s"
      and g2: "\<not> (SOUND_MODE C \<and> typeHash C (PrevLayerTy s) DL \<in> typeCapSet C)" by auto
    show ?thesis
    proof (cases "nextLayerBaseType C (CV s) [] (NextV s) {}")
      case (Inl e)
      then show ?thesis using "1.prems" False by auto
    next
      case (Inr w)
      obtain ret TyList NextV' Visited where w: "w = (ret, TyList, NextV', Visited)" by (cases w)
      note call = Inr [unfolded w]
      let ?s' = "layerLoop C DL TyList (s\<lparr>NextV := NextV'\<rparr>)"
      have sub: "FS ?s' \<subseteq> FS s" using layerLoop_FS_subset [of C DL TyList "s\<lparr>NextV := NextV'\<rparr>"] by simp
      show ?thesis
      proof (cases "TyList = []")
        case True
        then show ?thesis using "1.prems" g1 g2 call by auto
      next
        case ne: False
        show ?thesis
        proof (cases "ContinueNextLayer ?s'")
          case True
          have "mltaLoop C DL ?s' = Inr s'" using "1.prems" g1 g2 call ne True by (simp add: Let_def)
          from "1.IH" [OF g1 g2 call refl refl refl ne refl True this]
          show ?thesis using sub by blast
        next
          case False
          then have "s' = ?s'" using "1.prems" g1 g2 call ne by (simp add: Let_def)
          then show ?thesis using sub by simp
        qed
      qed
    qed
  qed
qed

text \<open>
  An example program. \<open>U\<close> has a pointer to \<open>S\<close> in field 2, \<open>S\<close> has a \<open>T\<close> in
  field 1 and \<open>T\<close> a function pointer in field 0. The called value is loaded from
  \<open>&p->f1.f0\<close>, where \<open>p\<close> is loaded from field 2 of the global \<open>g\<close> of type \<open>U\<close>:
  value 3 is the GEP into \<open>S\<close>, value 1 the GEP into \<open>U\<close>. Functions 1 and 2 have the
  signature of the call; both were stored into \<open>(T, 0)\<close> and \<open>(S, 1)\<close>, only function 2
  into \<open>(U, 2)\<close>. The slot \<open>(S, 1)\<close> has escaped.
\<close>

definition fnPtr :: tshape where "fnPtr = PointerTy (FunctionTy (IntegerTy 32) [] False)"
definition tyT :: Type where "tyT = (1, StructTy ''T'' [fnPtr])"
definition tyS :: Type where "tyS = (1, StructTy ''S'' [IntegerTy 32, snd tyT])"
definition tyU :: Type where "tyU = (1, StructTy ''U'' [IntegerTy 32, IntegerTy 32, PointerTy (snd tyS)])"

definition exIR :: irtab where
  "exIR = [\<lparr>vty = (1, PointerTy (snd tyU)), vkind = GlobalVariable None, vfunc = None\<rparr>,
           \<lparr>vty = (1, PointerTy (PointerTy (snd tyS))), vkind = GEP 0 tyU [Some 0, Some 2], vfunc = Some 9\<rparr>,
           \<lparr>vty = (1, PointerTy (snd tyS)), vkind = Load 1, vfunc = Some 9\<rparr>,
           \<lparr>vty = (1, PointerTy fnPtr), vkind = GEP 2 tyS [Some 0, Some 1, Some 0], vfunc = Some 9\<rparr>,
           \<lparr>vty = (1, fnPtr), vkind = Load 3, vfunc = Some 9\<rparr>]"

definition exTypeHash :: "Type \<Rightarrow> dl \<Rightarrow> nat" where
  "exTypeHash Ty DL = (if Ty = tyS then 1 else if Ty = tyT then 2 else if Ty = tyU then 3 else 0)"

definition exCtx :: Ctx where
  "exCtx = \<lparr>SOUND_MODE = True, MLTA_FIELD_INSENSITIVE = False, MAX_TYPE_LAYER = 10,
            IR = exIR, typeHash = exTypeHash,
            typeIdxHash = (\<lambda>Ty DL Idx. 100 * exTypeHash Ty DL + nat (Idx + 1)),
            getGEPIndicesForOffset = (\<lambda>v Ty c. []),
            AliasStructPtrMap = (\<lambda>F. Map.empty),
            sigFuncsMap = (\<lambda>h. if h = 200 then {1, 2} else {}),
            typeIdxFuncsMap = (\<lambda>h i. if h = 2 \<and> i = 0 then {1, 2}
                                     else if h = 1 \<and> i = 1 then {1, 2}
                                     else if h = 3 \<and> i = 2 then {2} else {}),
            typeIdxPropMap = [],
            typeCapSet = {},
            typeEscapeSet = {102},
            VTableFuncsMap = (\<lambda>v. {}),
            Funcs = (\<lambda>f. \<lparr>fid = f, isVarArg = False, argTys = [], returnTy = (1, IntegerTy 32),
                             isIntrinsic = False, isDeclaration = False, fparent = 1,
                             funcHash = 200, fargs = [], finsts = []\<rparr>),
            GlobalFuncs = (\<lambda>f. None),
            stripPointerCasts = (\<lambda>v. v)\<rparr>"

definition exCall :: CallSite where
  "exCall = \<lparr>isInlineAsm = False, callHash = 200, callArgTys = [],
              callTy = (1, IntegerTy 32), callerModule = 1, calledOperand = 4,
              callFunctionTy = (1, FunctionTy (IntegerTy 32) [] False), callDL = 0\<rparr>"

lemma exCall_walk:
  "nextLayerBaseType exCtx (Some (calledOperand exCall)) [] None {}
     = Inr (True, [(tyT, 0), (tyS, 1)], Some 2, {3, 4})"
  by code_simp

lemma exCall_result:
  "(case findCalleesWithMLTA exCtx Map.empty exCall of
      Inr (b, F, c) \<Rightarrow> b \<and> F = {2}
    | Inl e \<Rightarrow> False)"
  by code_simp

lemma exCall_result_4:
  "(case findCalleesWithMLTA (exCtx\<lparr>MAX_TYPE_LAYER := 4\<rparr>) Map.empty exCall of
      Inr (b, F, c) \<Rightarrow> b \<and> F = {2}
    | Inl e \<Rightarrow> False)"
  by code_simp

lemma exCall_result_3:
  "(case findCalleesWithMLTA (exCtx\<lparr>MAX_TYPE_LAYER := 3\<rparr>) Map.empty exCall of
      Inr (b, F, c) \<Rightarrow> b \<and> F = {1, 2}
    | Inl e \<Rightarrow> False)"
  by code_simp

text \<open>
  Claim C1 (seed superset): whenever \<open>findCalleesWithMLTA\<close> returns, its function set is
  a subset of the signature seed \<open>sigFuncsMap[callHash(CI)]\<close>.
\<close>

theorem findCalleesWithMLTA_subset_seed:
  "findCalleesWithMLTA C Cache CI = Inr (ret, FS', Cache') \<Longrightarrow> FS' \<subseteq> sigFuncsMap C (callHash CI)"
proof (cases "sigFuncsMap C (callHash CI) = {}")
  case True
  assume "findCalleesWithMLTA C Cache CI = Inr (ret, FS', Cache')"
  then show ?thesis using True by (simp add: findCalleesWithMLTA_def)
next
  case False
  assume r: "findCalleesWithMLTA C Cache CI = Inr (ret, FS', Cache')"
  let ?s0 = "\<lparr>FS = sigFuncsMap C (callHash CI), FS1 = {}, FS2 = {},
                 PrevLayerTy = callFunctionTy CI, CV = Some (calledOperand CI), NextV = None,
                 LayerNo = 1, ContinueNextLayer = True, MatchedFuncsMap = Cache\<rparr>"
  from r False obtain s' where s': "mltaLoop C (callDL CI) ?s0 = Inr s'" "FS' = FS s'"
    by (auto simp: findCalleesWithMLTA_def split: sum.splits)
  from mltaLoop_FS_subset [OF s'(1)] s'(2) show ?thesis by simp
qed

theorem findCalleesWithMLTA_subset_seed_witness:
  "\<exists>c. findCalleesWithMLTA exCtx Map.empty exCall = Inr (True, {2}, c)
       \<and> {2} \<subseteq> sigFuncsMap exCtx (callHash exCall)"
proof -
  from exCall_result obtain c where h: "findCalleesWithMLTA exCtx Map.empty exCall = Inr (True, {2}, c)"
    by (auto split: sum.splits)
  from findCalleesWithMLTA_subset_seed [OF h] h show ?thesis by blast
qed

text \<open>
  Claim C8 (empty seed): if the signature seed of the call is empty,
  \<open>findCalleesWithMLTA\<close> returns \<open>false\<close> with the empty set and leaves the cache as it
  was; the layer loop is not entered.
\<close>

theorem findCalleesWithMLTA_empty_seed:
  "sigFuncsMap C (callHash CI) = {} \<Longrightarrow> findCalleesWithMLTA C Cache CI = Inr (False, {}, Cache)"
  by (simp add: findCalleesWithMLTA_def)

theorem findCalleesWithMLTA_empty_seed_witness:
  "sigFuncsMap exCtx (callHash (exCall\<lparr>callHash := 201\<rparr>)) = {}
   \<and> findCalleesWithMLTA exCtx Map.empty (exCall\<lparr>callHash := 201\<rparr>) = Inr (False, {}, Map.empty)"
proof -
  have h: "sigFuncsMap exCtx (callHash (exCall\<lparr>callHash := 201\<rparr>)) = {}"
    by (simp add: exCtx_def)
  from findCalleesWithMLTA_empty_seed [OF h, of Map.empty] h show ?thesis by simp
qed

text \<open>
  In sound mode an escaped layer without a cached entry is left with \<open>break\<close>: the
  layer counter has advanced, \<open>FS\<close> and \<open>ContinueNextLayer\<close> are as before, the rest of
  \<open>TyList\<close> is dropped.
\<close>

lemma layerLoop_escaped_layer:
  assumes "SOUND_MODE C" "LayerNo s < MAX_TYPE_LAYER C"
    and "MatchedFuncsMap s (typeIdxHash C (fst TyIdx) DL (snd TyIdx)) = None"
    and "typeIdxHash C (fst TyIdx) DL (snd TyIdx) \<in> typeEscapeSet C
         \<or> typeIdxHash C (fst TyIdx) DL (- 1) \<in> typeEscapeSet C"
  shows "layerLoop C DL (TyIdx # rest) s = s\<lparr>LayerNo := LayerNo s + 1\<rparr>"
  using assms by (auto simp: layerLookup_def)

text \<open>
  Claim C3 (escape widening) fails on the code. In the example the walker yields the
  layers \<open>(T, 0)\<close> and \<open>(S, 1)\<close> from the first GEP; \<open>(S, 1)\<close> is escaped and not cached.
  After \<open>(T, 0)\<close> the set is \<open>{1, 2}\<close>, and the loop over \<open>TyList\<close> is left at \<open>(S, 1)\<close>
  with that set, but \<open>ContinueNextLayer\<close> is still true: the outer loop goes on from the
  pointer operand, reaches \<open>(U, 2)\<close> and the query returns \<open>{2}\<close>.
\<close>

theorem findCalleesWithMLTA_descends_past_escaped_layer:
  "SOUND_MODE exCtx
   \<and> nextLayerBaseType exCtx (Some (calledOperand exCall)) [] None {}
       = Inr (True, [(tyT, 0), (tyS, 1)], Some 2, {3, 4})
   \<and> typeIdxHash exCtx tyS (callDL exCall) 1 \<in> typeEscapeSet exCtx
   \<and> FS (layerLoop exCtx (callDL exCall) [(tyT, 0)]
            \<lparr>FS = {1, 2}, FS1 = {}, FS2 = {}, PrevLayerTy = callFunctionTy exCall,
             CV = Some 4, NextV = Some 2, LayerNo = 1, ContinueNextLayer = True,
             MatchedFuncsMap = Map.empty\<rparr>) = {1, 2}
   \<and> (case findCalleesWithMLTA exCtx Map.empty exCall of
        Inr (b, F, c) \<Rightarrow> F = {2} \<and> c (typeIdxHash exCtx tyS (callDL exCall) 1) = None
      | Inl e \<Rightarrow> False)"
  by code_simp

lemma getGEPLayerTypes_MAX:
  "getGEPLayerTypes (C\<lparr>MAX_TYPE_LAYER := k\<rparr>) G PO ETy idxs TyList = getGEPLayerTypes C G PO ETy idxs TyList"
proof -
  have r: "recoverBaseType (C\<lparr>MAX_TYPE_LAYER := k\<rparr>) PO = recoverBaseType C PO"
    by (simp add: recoverBaseType_def split: option.splits)
  have g: "gepIndices (C\<lparr>MAX_TYPE_LAYER := k\<rparr>) G PO ETy idxs = gepIndices C G PO ETy idxs"
    by (simp add: gepIndices_def r cong: option.case_cong if_cong)
  show ?thesis
    by (simp add: getGEPLayerTypes_def g cong: gepStart.case_cong sum.case_cong if_cong)
qed

lemma nextLayerBaseType_MAX:
  "nextLayerBaseType (C\<lparr>MAX_TYPE_LAYER := k\<rparr>) V TyList N Visited
     = nextLayerBaseType C V TyList N Visited"
  "phiIncoming (C\<lparr>MAX_TYPE_LAYER := k\<rparr>) ivs TyList Visited acc
     = phiIncoming C ivs TyList Visited acc"
proof (induction C V TyList N Visited and C ivs TyList Visited acc
       rule: nextLayerBaseType_phiIncoming.induct)
  case (1 C V TyList N Visited)
  show ?case
  proof (cases V)
    case None
    then show ?thesis by (simp add: nextLayerBaseType.simps)
  next
    case (Some v)
    note V = this
    show ?thesis
    proof (cases "kindOf (IR C) v = Argument \<or> v \<in> Visited")
      case True
      then show ?thesis using V by (auto simp: nextLayerBaseType.simps)
    next
      case False
      then have na: "kindOf (IR C) v \<noteq> Argument" and nv: "v \<notin> Visited" by auto
      show ?thesis
      proof (cases "kindOf (IR C) v")
        case (Load p)
        from "1.IH"(1) [OF V na nv Load] V na nv Load show ?thesis
          by (simp add: nextLayerBaseType.simps [of _ "Some v"])
      next
        case (BitCast x)
        from "1.IH"(2) [OF V na nv BitCast] V na nv BitCast show ?thesis
          by (simp add: nextLayerBaseType.simps [of _ "Some v"])
      next
        case (PHI ivs)
        from "1.IH"(3) [OF V na nv PHI] V na nv PHI show ?thesis
          by (simp add: nextLayerBaseType.simps [of _ "Some v"])
      next
        case (Select c t f)
        from "1.IH"(4) [OF V na nv Select] V na nv Select show ?thesis
          by (simp add: nextLayerBaseType.simps [of _ "Some v"])
      next
        case (Unary x)
        from "1.IH"(5) [OF V na nv Unary] V na nv Unary show ?thesis
          by (simp add: nextLayerBaseType.simps [of _ "Some v"])
      qed (use V na nv in \<open>simp_all add: nextLayerBaseType.simps [of _ "Some v"] getGEPLayerTypes_MAX\<close>)
    qed
  qed
next
  case (2 C TyList Visited acc)
  then show ?case by simp
next
  case (3 C IV ivs TyList Visited acc)
  show ?case
  proof (cases "nextLayerBaseType C (Some IV) TyList (Some IV) Visited")
    case (Inl e)
    then show ?thesis using "3.IH"(1) by simp
  next
    case (Inr w)
    obtain ret NT NV NVis where w: "w = (ret, NT, NV, NVis)" by (cases w)
    note call = Inr [unfolded w]
    show ?thesis
    proof (cases "length NT > length TyList")
      case True
      then show ?thesis using "3.IH"(1) call by simp
    next
      case False
      from "3.IH"(2) [OF call refl refl refl False] "3.IH"(1) call False
      show ?thesis by simp
    qed
  qed
qed

lemma layerLookup_MAX:
  "layerLookup (C\<lparr>MAX_TYPE_LAYER := k\<rparr>) DL TyIdx s = layerLookup C DL TyIdx s"
proof -
  have t: "layerTargets (C\<lparr>MAX_TYPE_LAYER := k\<rparr>) DL TyIdx s = layerTargets C DL TyIdx s"
    by (simp add: layerTargets_def)
  show ?thesis by (simp add: layerLookup_def t split: option.splits)
qed

lemma layerLoop_one_more_layer:
  "layerLoop (C\<lparr>MAX_TYPE_LAYER := MAX_TYPE_LAYER C + 1\<rparr>) DL TyList s = layerLoop C DL TyList s
   \<or> (MAX_TYPE_LAYER C \<le> LayerNo (layerLoop C DL TyList s)
      \<and> FS (layerLoop (C\<lparr>MAX_TYPE_LAYER := MAX_TYPE_LAYER C + 1\<rparr>) DL TyList s)
           \<subseteq> FS (layerLoop C DL TyList s))"
proof (induction TyList arbitrary: s)
  case Nil
  then show ?case by simp
next
  case (Cons TyIdx rest)
  let ?C1 = "C\<lparr>MAX_TYPE_LAYER := MAX_TYPE_LAYER C + 1\<rparr>"
  show ?case
  proof (cases "MAX_TYPE_LAYER C \<le> LayerNo s")
    case True
    then have a: "layerLoop C DL (TyIdx # rest) s = s" by simp
    have "FS (layerLoop ?C1 DL (TyIdx # rest) s) \<subseteq> FS s" by (rule layerLoop_FS_subset)
    then show ?thesis using a True by simp
  next
    case False
    then have lt: "\<not> MAX_TYPE_LAYER C + 1 \<le> LayerNo s" by simp
    show ?thesis
    proof (cases "layerLookup C DL TyIdx (s\<lparr>LayerNo := LayerNo s + 1\<rparr>)")
      case None
      then show ?thesis using False lt by (simp add: layerLookup_MAX)
    next
      case (Some s1)
      let ?s2 = "s1\<lparr>FS2 := intersectFuncSets (FS1 s1) (FS s1),
                     FS := intersectFuncSets (FS1 s1) (FS s1), CV := NextV s1, PrevLayerTy := fst TyIdx\<rparr>"
      from Cons.IH [of ?s2] Some False lt show ?thesis
        by (simp add: layerLookup_MAX Let_def)
    qed
  qed
qed

lemma mltaLoop_one_more_layer:
  "mltaLoop (C\<lparr>MAX_TYPE_LAYER := MAX_TYPE_LAYER C + 1\<rparr>) DL s = Inr r1 \<Longrightarrow>
   \<exists>r. mltaLoop C DL s = Inr r \<and> FS r1 \<subseteq> FS r"
proof (induction C DL s arbitrary: r1 rule: mltaLoop.induct)
  case (1 C DL s)
  let ?C1 = "C\<lparr>MAX_TYPE_LAYER := MAX_TYPE_LAYER C + 1\<rparr>"
  show ?case
  proof (cases "MAX_TYPE_LAYER C \<le> LayerNo s")
    case True
    then have "mltaLoop C DL s = Inr s" by (simp add: mltaLoop.simps)
    moreover have "FS r1 \<subseteq> FS s" using "1.prems" by (rule mltaLoop_FS_subset)
    ultimately show ?thesis by simp
  next
    case g1: False
    then have g1': "\<not> MAX_TYPE_LAYER ?C1 \<le> LayerNo s" by simp
    show ?thesis
    proof (cases "SOUND_MODE C \<and> typeHash C (PrevLayerTy s) DL \<in> typeCapSet C")
      case True
      have a: "mltaLoop C DL s = Inr s" using True g1 by (simp add: mltaLoop.simps [of C DL s])
      have "mltaLoop ?C1 DL s = Inr s" using True g1' by (simp add: mltaLoop.simps [of ?C1 DL s])
      then have "r1 = s" using "1.prems" by simp
      then show ?thesis using a by simp
    next
      case False
      then have g2: "(SOUND_MODE C \<and> typeHash C (PrevLayerTy s) DL \<in> typeCapSet C) = False"
        by simp
      have g2n: "\<not> (SOUND_MODE C \<and> typeHash C (PrevLayerTy s) DL \<in> typeCapSet C)"
        using False .
      show ?thesis
      proof (cases "nextLayerBaseType C (CV s) [] (NextV s) {}")
        case (Inl e)
        then show ?thesis using "1.prems" g1 g1'
          by (simp add: g2 mltaLoop.simps [of ?C1 DL s] nextLayerBaseType_MAX)
      next
        case (Inr w)
        obtain ret TyList NextV' Visited where w: "w = (ret, TyList, NextV', Visited)" by (cases w)
        note call = Inr [unfolded w]
        let ?a = "layerLoop C DL TyList (s\<lparr>NextV := NextV'\<rparr>)"
        let ?b = "layerLoop ?C1 DL TyList (s\<lparr>NextV := NextV'\<rparr>)"
        show ?thesis
        proof (cases "TyList = []")
          case True
          have a: "mltaLoop C DL s = Inr (s\<lparr>NextV := NextV'\<rparr>)"
            using True g1 call by (simp add: g2 mltaLoop.simps [of C DL s])
          have "mltaLoop ?C1 DL s = Inr (s\<lparr>NextV := NextV'\<rparr>)"
            using True g1' call by (simp add: g2 mltaLoop.simps [of ?C1 DL s] nextLayerBaseType_MAX)
          then have "r1 = s\<lparr>NextV := NextV'\<rparr>" using "1.prems" by simp
          then show ?thesis using a by simp
        next
          case ne: False
          have run1: "(if ContinueNextLayer ?b then mltaLoop ?C1 DL ?b else Inr ?b) = Inr r1"
            using "1.prems" g1 g1' call ne
            by (simp add: g2 mltaLoop.simps [of ?C1 DL s] nextLayerBaseType_MAX Let_def)
          have runk: "mltaLoop C DL s = (if ContinueNextLayer ?a then mltaLoop C DL ?a else Inr ?a)"
            using g1 call ne by (simp add: g2 mltaLoop.simps [of C DL s] Let_def)
          from layerLoop_one_more_layer [of C DL TyList "s\<lparr>NextV := NextV'\<rparr>"]
          show ?thesis
          proof
            assume eq: "?b = ?a"
            show ?thesis
            proof (cases "ContinueNextLayer ?a")
              case True
              have "mltaLoop ?C1 DL ?a = Inr r1" using run1 eq True by simp
              from "1.IH" [OF g1 g2n call refl refl refl ne refl True this]
              show ?thesis using runk True by simp
            next
              case False
              then show ?thesis using run1 runk eq by simp
            qed
          next
            assume far: "MAX_TYPE_LAYER C \<le> LayerNo ?a \<and> FS ?b \<subseteq> FS ?a"
            have "mltaLoop C DL ?a = Inr ?a" using far by (simp add: mltaLoop.simps [of C DL ?a])
            then have k: "mltaLoop C DL s = Inr ?a" using runk by simp
            have "FS r1 \<subseteq> FS ?b"
            proof (cases "ContinueNextLayer ?b")
              case True
              then have "mltaLoop ?C1 DL ?b = Inr r1" using run1 by simp
              then show ?thesis by (rule mltaLoop_FS_subset)
            next
              case False
              then show ?thesis using run1 by auto
            qed
            then show ?thesis using k far by auto
          qed
        qed
      qed
    qed
  qed
qed

text \<open>
  Claim C4 (layer monotonicity): over the same tables and from the same cache (the empty
  one in particular), whenever the query with \<open>MAX_TYPE_LAYER = k + 1\<close> returns, the
  query with \<open>MAX_TYPE_LAYER = k\<close> returns too, and the set of the first is a subset of
  the set of the second.
\<close>

theorem findCalleesWithMLTA_layer_monotone:
  "findCalleesWithMLTA (C\<lparr>MAX_TYPE_LAYER := k + 1\<rparr>) Cache CI = Inr (ret1, FS1', Cache1) \<Longrightarrow>
   \<exists>ret FS' Cache'. findCalleesWithMLTA (C\<lparr>MAX_TYPE_LAYER := k\<rparr>) Cache CI = Inr (ret, FS', Cache')
                    \<and> FS1' \<subseteq> FS'"
proof (cases "sigFuncsMap C (callHash CI) = {}")
  case True
  assume "findCalleesWithMLTA (C\<lparr>MAX_TYPE_LAYER := k + 1\<rparr>) Cache CI = Inr (ret1, FS1', Cache1)"
  then show ?thesis using True by (auto simp: findCalleesWithMLTA_def)
next
  case False
  assume r: "findCalleesWithMLTA (C\<lparr>MAX_TYPE_LAYER := k + 1\<rparr>) Cache CI = Inr (ret1, FS1', Cache1)"
  let ?Ck = "C\<lparr>MAX_TYPE_LAYER := k\<rparr>"
  let ?s0 = "\<lparr>FS = sigFuncsMap C (callHash CI), FS1 = {}, FS2 = {},
                 PrevLayerTy = callFunctionTy CI, CV = Some (calledOperand CI), NextV = None,
                 LayerNo = 1, ContinueNextLayer = True, MatchedFuncsMap = Cache\<rparr>"
  have c: "?Ck\<lparr>MAX_TYPE_LAYER := MAX_TYPE_LAYER ?Ck + 1\<rparr> = C\<lparr>MAX_TYPE_LAYER := k + 1\<rparr>" by simp
  from r False obtain r1 where r1: "mltaLoop (C\<lparr>MAX_TYPE_LAYER := k + 1\<rparr>) (callDL CI) ?s0 = Inr r1" "FS1' = FS r1"
    by (auto simp: findCalleesWithMLTA_def split: sum.splits)
  from mltaLoop_one_more_layer [of ?Ck "callDL CI" ?s0 r1] r1(1) c
  obtain rk where rk: "mltaLoop ?Ck (callDL CI) ?s0 = Inr rk" "FS r1 \<subseteq> FS rk" by auto
  then show ?thesis using False r1(2) by (auto simp: findCalleesWithMLTA_def)
qed

theorem findCalleesWithMLTA_layer_monotone_witness:
  "(\<exists>c. findCalleesWithMLTA (exCtx\<lparr>MAX_TYPE_LAYER := 3 + 1\<rparr>) Map.empty exCall = Inr (True, {2}, c))
   \<and> (\<exists>ret FS' c. findCalleesWithMLTA (exCtx\<lparr>MAX_TYPE_LAYER := 3\<rparr>) Map.empty exCall = Inr (ret, FS', c)
                   \<and> {2} \<subseteq> FS')"
proof -
  from exCall_result_4 obtain c
    where h: "findCalleesWithMLTA (exCtx\<lparr>MAX_TYPE_LAYER := 3 + 1\<rparr>) Map.empty exCall = Inr (True, {2}, c)"
    by (auto split: sum.splits)
  from findCalleesWithMLTA_layer_monotone [OF h] h show ?thesis by blast
qed

subsection \<open>Termination of the base-type chain\<close>

text \<open>
  A call of \<open>nextLayerBaseType\<close> that returns \<open>true\<close> was made on a value of the table
  that was not in \<open>Visited\<close>, and has put it there: the loop of \<open>getBaseTypeChain\<close>
  cannot come back to a value.
\<close>

lemma nextLayerBaseType_progress:
  "nextLayerBaseType C V TyList N Visited = Inr (True, T', N', Vis') \<Longrightarrow>
   \<exists>v. V = Some v \<and> v < length (IR C) \<and> v \<notin> Visited \<and> insert v Visited \<subseteq> Vis'"
  by (rule nextLayerBaseType_progress_aux(1))

text \<open>
  Claim C9 (base-chain termination): \<open>getBaseTypeChain\<close> terminates on every value of
  every program. Its recursions are \<open>getBaseType\<close>, \<open>nextLayerBaseType\<close> (with its loop
  over PHI operands) and the loop \<open>while (nextLayerBaseType(CV, TyList, NextV, Visited))\<close>.
  Every argument is in the accessible part of their call relations, and the loop makes
  progress: each call of \<open>nextLayerBaseType\<close> that lets it go on has lowered the number
  of table values outside \<open>Visited\<close>.
\<close>

theorem getBaseTypeChain_terminates:
  "(nextLayerBaseType C V TyList N Visited = Inr (True, T', N', Vis')
      \<longrightarrow> unvisited C Vis' < unvisited C Visited)
   \<and> chainLoop_dom (C, V, TyList, N, Visited)
   \<and> nextLayerBaseType_phiIncoming_dom (Inl (C, V, TyList, N, Visited))
   \<and> getBaseType_getPhiBaseType_dom (Inl (C, V, Visited))"
  using getBaseType_dom_all chainLoop_dom_all nextLayerBaseType_dom_all
    nextLayerBaseType_unvisited [of C V TyList N Visited T' N' Vis']
  by blast

theorem getBaseTypeChain_terminates_witness:
  "nextLayerBaseType exCtx (Some 4) [] None {} = Inr (True, [(tyT, 0), (tyS, 1)], Some 2, {3, 4})
   \<and> unvisited exCtx {3, 4} < unvisited exCtx {}
   \<and> chainLoop_dom (exCtx, Some 4, [], None, {})"
proof -
  have h: "nextLayerBaseType exCtx (Some 4) [] None {} = Inr (True, [(tyT, 0), (tyS, 1)], Some 2, {3, 4})"
    using exCall_walk by (simp add: exCall_def)
  from getBaseTypeChain_terminates [of exCtx "Some 4" "[]" None "{}" "[(tyT, 0), (tyS, 1)]" "Some 2" "{3, 4}"] h
  show ?thesis by blast
qed

subsection \<open>Alias recovery\<close>

text \<open>
  The loop of \<open>collectAliasStructPtr\<close>, for one source value \<open>v\<close>: the map keeps an
  entry it already had, else it gets the first cast of \<open>v\<close> that passes the tests; \<open>v\<close>
  is marked for erasure when a cast of \<open>v\<close> passes the tests while \<open>v\<close> is in the map.
\<close>

lemma aliasLoop_result:
  "fst (aliasLoop TT tab M Is m E) v
     = (if m v \<noteq> None then m v
        else (case filter (\<lambda>I. aliasSource TT tab M I = Some v) Is of [] \<Rightarrow> None | I # _ \<Rightarrow> Some I))
   \<and> (v \<in> snd (aliasLoop TT tab M Is m E) \<longleftrightarrow>
        v \<in> E
        \<or> (m v \<noteq> None \<and> filter (\<lambda>I. aliasSource TT tab M I = Some v) Is \<noteq> [])
        \<or> (m v = None \<and> 2 \<le> length (filter (\<lambda>I. aliasSource TT tab M I = Some v) Is)))"
proof (induction Is arbitrary: m E)
  case Nil
  then show ?case by simp
next
  case (Cons I Is)
  let ?q = "\<lambda>I. aliasSource TT tab M I = Some v"
  show ?case
  proof (cases "aliasSource TT tab M I")
    case None
    then have "aliasLoop TT tab M (I # Is) m E = aliasLoop TT tab M Is m E"
      and "filter ?q (I # Is) = filter ?q Is" by simp_all
    then show ?thesis using Cons.IH [of m E] by simp
  next
    case (Some w)
    show ?thesis
    proof (cases "m w = None")
      case False
      have step: "aliasLoop TT tab M (I # Is) m E = aliasLoop TT tab M Is m (insert w E)"
        using Some False by simp
      show ?thesis
      proof (cases "w = v")
        case True
        then have f: "filter ?q (I # Is) = I # filter ?q Is" using Some by simp
        show ?thesis unfolding step f using Cons.IH [of m "insert w E"] True False by auto
      next
        case ne: False
        then have f: "filter ?q (I # Is) = filter ?q Is" using Some by simp
        show ?thesis unfolding step f using Cons.IH [of m "insert w E"] ne by auto
      qed
    next
      case True
      define m' where "m' = m(w \<mapsto> I)"
      have step: "aliasLoop TT tab M (I # Is) m E = aliasLoop TT tab M Is m' E"
        using Some True by (simp add: m'_def)
      note ih = Cons.IH [of m' E]
      show ?thesis
      proof (cases "w = v")
        case eq: True
        then have f: "filter ?q (I # Is) = I # filter ?q Is" using Some by simp
        have m'v: "m' v = Some I" using eq by (simp add: m'_def)
        have mv: "m v = None" using True eq by simp
        have l: "(2 \<le> length (I # filter ?q Is)) = (filter ?q Is \<noteq> [])"
          by (cases "filter ?q Is") simp_all
        show ?thesis unfolding step f l using ih m'v mv by simp
      next
        case ne: False
        then have f: "filter ?q (I # Is) = filter ?q Is" using Some by simp
        have m'v: "m' v = m v" using ne by (simp add: m'_def)
        show ?thesis unfolding step f using ih m'v by simp
      qed
    qed
  qed
qed

text \<open>
  Claim C6 (single alias): after \<open>collectAliasStructPtr(F)\<close> the map of \<open>F\<close> is determined,
  for every source value, by the casts of \<open>F\<close> that pass the tests of the loop (a cast
  instruction of a call result of type \<open>Int8PtrTy\<close> to a pointer to a composite type). A
  source with no such cast keeps the entry it had; a source with exactly one, and no
  entry before, is mapped to that cast; a source with a second such cast (or one such
  cast and an entry from before) is not in the map. So every remaining source has a
  single cast, and a source with conflicting casts is removed.
\<close>

theorem collectAliasStructPtr_single_cast:
  "AliasStructPtrMap (collectAliasStructPtr TT C F) (fid F) FromV
     = (case filter (\<lambda>I. aliasSource TT (IR C) (fparent F) I = Some FromV) (finsts F) of
          [] \<Rightarrow> AliasStructPtrMap C (fid F) FromV
        | [CI] \<Rightarrow> (if AliasStructPtrMap C (fid F) FromV = None then Some CI else None)
        | _ \<Rightarrow> None)"
proof -
  let ?n = "filter (\<lambda>I. aliasSource TT (IR C) (fparent F) I = Some FromV) (finsts F)"
  let ?R = "aliasLoop TT (IR C) (fparent F) (finsts F) (AliasStructPtrMap C (fid F)) {}"
  let ?m = "AliasStructPtrMap C (fid F)"
  note r = aliasLoop_result [where TT = TT and tab = "IR C" and M = "fparent F" and Is = "finsts F"
      and m = ?m and E = "{}" and v = FromV]
  have lhs: "AliasStructPtrMap (collectAliasStructPtr TT C F) (fid F) FromV
               = (if FromV \<in> snd ?R then None else fst ?R FromV)"
    by (simp add: collectAliasStructPtr_def Let_def)
  show ?thesis
  proof (cases ?n)
    case Nil
    then show ?thesis using r lhs by auto
  next
    case (Cons CI rest)
    show ?thesis
    proof (cases rest)
      case Nil
      then show ?thesis using r lhs Cons by auto
    next
      case (Cons b list)
      then show ?thesis using r lhs \<open>?n = CI # rest\<close> by auto
    qed
  qed
qed

subsection \<open>Field-insensitive confinement\<close>

text \<open>
  The invariant of the confinement phase in field-insensitive mode: only index 0 of
  \<open>typeIdxFuncsMap\<close> is used.
\<close>

definition fieldInsensitive :: "Ctx \<Rightarrow> bool" where
  "fieldInsensitive C =
     (MLTA_FIELD_INSENSITIVE C \<and> (\<forall>T i. i \<noteq> 0 \<longrightarrow> typeIdxFuncsMap C T i = {}))"

lemma gepWalk_zero:
  "gepWalk True idxs ETy Tmp = Inr (ETy', Tmp') \<Longrightarrow> list_all (\<lambda>x. snd x = 0) Tmp
   \<Longrightarrow> list_all (\<lambda>x. snd x = 0) Tmp'"
proof (induction idxs arbitrary: ETy Tmp)
  case Nil
  then show ?case by simp
next
  case (Cons Idx rest)
  from Cons.prems(1) obtain SubTy where s: "subType ETy Idx = Inr SubTy"
    and r: "gepWalk True rest SubTy ((ETy, 0) # Tmp) = Inr (ETy', Tmp')"
    by (auto split: sum.splits)
  from Cons.IH [OF r] Cons.prems(2) show ?case by simp
qed

lemma firstFieldLayers_zero: "list_all (\<lambda>x. snd x = 0) (firstFieldLayers tab G ETy)"
  by (induction tab G ETy rule: firstFieldLayers.induct) (auto simp: firstFieldCasts_def list_all_iff)

lemma getGEPLayerTypes_zero:
  assumes "MLTA_FIELD_INSENSITIVE C"
    and "getGEPLayerTypes C G PO ETy idxs TyList = Inr (ret, TyList')"
    and "list_all (\<lambda>x. snd x = 0) TyList"
  shows "list_all (\<lambda>x. snd x = 0) TyList'"
proof (cases "gepIndices C G PO ETy idxs")
  case Bail
  then show ?thesis using assms by (auto simp: getGEPLayerTypes_def split: if_splits)
next
  case (Start E0 Indices)
  show ?thesis
  proof (cases "gepWalk True (tl Indices) E0 []")
    case (Inl e)
    then show ?thesis using assms Start by (auto simp: getGEPLayerTypes_def split: if_splits)
  next
    case (Inr w)
    obtain E' Tmp where w: "w = (E', Tmp)" by (cases w)
    have z: "list_all (\<lambda>x. snd x = 0) Tmp"
      using gepWalk_zero [of "tl Indices" E0 "[]" E' Tmp] Inr w by simp
    show ?thesis
      using assms Start Inr w z firstFieldLayers_zero [of "IR C" G E']
      by (auto simp: getGEPLayerTypes_def Let_def split: if_splits)
  qed
qed

lemma nextLayerBaseType_zero:
  "MLTA_FIELD_INSENSITIVE C \<Longrightarrow> list_all (\<lambda>x. snd x = 0) TyList \<Longrightarrow>
   nextLayerBaseType C V TyList N Visited = Inr (ret, T', N', Vis') \<Longrightarrow> list_all (\<lambda>x. snd x = 0) T'"
  "MLTA_FIELD_INSENSITIVE C \<Longrightarrow> list_all (\<lambda>x. snd x = 0) TyList \<Longrightarrow> list_all (\<lambda>x. snd x = 0) (fst (snd acc)) \<Longrightarrow>
   phiIncoming C ivs TyList Visited acc = Inr (ret, T', N', Vis') \<Longrightarrow> list_all (\<lambda>x. snd x = 0) T'"
proof (induction C V TyList N Visited and C ivs TyList Visited acc
       arbitrary: ret T' N' Vis' and ret T' N' Vis' rule: nextLayerBaseType_phiIncoming.induct)
  case (1 C V TyList N Visited)
  note fi = "1.prems"(1) and z = "1.prems"(2) and res = "1.prems"(3)
  show ?case
  proof (cases V)
    case None
    then show ?thesis using res z by (simp add: nextLayerBaseType.simps)
  next
    case (Some v)
    note V = this
    show ?thesis
    proof (cases "kindOf (IR C) v = Argument \<or> v \<in> Visited")
      case True
      then show ?thesis using res z V by (auto simp: nextLayerBaseType.simps split: if_splits)
    next
      case False
      then have na: "kindOf (IR C) v \<noteq> Argument" and nv: "v \<notin> Visited" by auto
      show ?thesis
      proof (cases "kindOf (IR C) v")
        case (GEP PO ETy idxs)
        then show ?thesis using res z V na nv fi
          by (auto simp: nextLayerBaseType.simps [of _ "Some v"] split: sum.splits
                   dest: getGEPLayerTypes_zero)
      next
        case (Load p)
        from res V na nv Load
        have "nextLayerBaseType C (Some p) TyList (Some p) (insert v Visited) = Inr (ret, T', N', Vis')"
          by (simp add: nextLayerBaseType.simps [of _ "Some v"])
        from "1.IH"(1) [OF V na nv Load fi z this] show ?thesis .
      next
        case (BitCast x)
        from res V na nv BitCast
        have "nextLayerBaseType C (Some x) TyList (Some x) (insert v Visited) = Inr (ret, T', N', Vis')"
          by (simp add: nextLayerBaseType.simps [of _ "Some v"])
        from "1.IH"(2) [OF V na nv BitCast fi z this] show ?thesis .
      next
        case (PHI ivs)
        from res V na nv PHI
        have "phiIncoming C ivs TyList (insert v Visited) (False, [], N, {}) = Inr (ret, T', N', Vis')"
          by (simp add: nextLayerBaseType.simps [of _ "Some v"])
        from "1.IH"(3) [OF V na nv PHI fi z _ this] show ?thesis by simp
      next
        case (Select c t f)
        from res V na nv Select
        have "nextLayerBaseType C (Some t) TyList (Some t) (insert v Visited) = Inr (ret, T', N', Vis')"
          by (simp add: nextLayerBaseType.simps [of _ "Some v"])
        from "1.IH"(4) [OF V na nv Select fi z this] show ?thesis .
      next
        case (Unary x)
        from res V na nv Unary
        have "nextLayerBaseType C (Some x) TyList (Some x) (insert v Visited) = Inr (ret, T', N', Vis')"
          by (simp add: nextLayerBaseType.simps [of _ "Some v"])
        from "1.IH"(5) [OF V na nv Unary fi z this] show ?thesis .
      qed (use res z V na nv in \<open>auto simp: nextLayerBaseType.simps [of _ "Some v"]\<close>)
    qed
  qed
next
  case (2 C TyList Visited acc)
  then show ?case by auto
next
  case (3 C IV ivs TyList Visited acc)
  note fi = "3.prems"(1) and z = "3.prems"(2) and res = "3.prems"(4)
  show ?case
  proof (cases "nextLayerBaseType C (Some IV) TyList (Some IV) Visited")
    case (Inl e)
    then show ?thesis using res by simp
  next
    case (Inr w)
    obtain r NT NV NVis where w: "w = (r, NT, NV, NVis)" by (cases w)
    note call = Inr [unfolded w]
    have zNT: "list_all (\<lambda>x. snd x = 0) NT" using "3.IH"(1) [OF fi z call] .
    show ?thesis
    proof (cases "length NT > length TyList")
      case True
      then show ?thesis using res call zNT by auto
    next
      case False
      then have rest: "phiIncoming C ivs TyList Visited (r, NT, NV, NVis) = Inr (ret, T', N', Vis')"
        using res call by simp
      from "3.IH"(2) [OF call refl refl refl False fi z _ rest] zNT show ?thesis by simp
    qed
  qed
qed

lemma chainLoop_zero:
  "MLTA_FIELD_INSENSITIVE C \<Longrightarrow> list_all (\<lambda>x. snd x = 0) TyList \<Longrightarrow>
   chainLoop C V TyList N Visited = Inr (T', N') \<Longrightarrow> list_all (\<lambda>x. snd x = 0) T'"
proof (induction C V TyList N Visited rule: chainLoop.induct)
  case (1 C V TyList N Visited)
  show ?case
  proof (cases "nextLayerBaseType C V TyList N Visited")
    case (Inl e)
    then show ?thesis using "1.prems"(3) by (simp add: chainLoop.simps [of C V])
  next
    case (Inr w)
    obtain r NT NV NVis where w: "w = (r, NT, NV, NVis)" by (cases w)
    note call = Inr [unfolded w]
    have zNT: "list_all (\<lambda>x. snd x = 0) NT"
      using nextLayerBaseType_zero(1) [OF "1.prems"(1,2) call] .
    show ?thesis
    proof (cases r)
      case True
      then have "chainLoop C NV NT NV NVis = Inr (T', N')"
        using "1.prems"(3) call by (simp add: chainLoop.simps [of C V])
      from "1.IH" [OF call refl refl refl True "1.prems"(1) zNT this] show ?thesis .
    next
      case False
      then show ?thesis using "1.prems"(3) call zNT by (simp add: chainLoop.simps [of C V])
    qed
  qed
qed

lemma getBaseTypeChain_zero:
  assumes "MLTA_FIELD_INSENSITIVE C" "getBaseTypeChain C [] V DL = Inr (Chain, Complete, C')"
  shows "(list_all (\<lambda>x. snd x = 0) Chain) \<and> typeIdxFuncsMap C' = typeIdxFuncsMap C
         \<and> MLTA_FIELD_INSENSITIVE C'"
proof -
  from assms(2) obtain TyList NV where c: "chainLoop C (Some V) [] None {} = Inr (TyList, NV)"
    by (auto simp: getBaseTypeChain_def Let_def split: sum.splits)
  have z: "list_all (\<lambda>x. snd x = 0) TyList" using chainLoop_zero [OF assms(1) _ c] by simp
  show ?thesis using assms c z
    by (auto simp: getBaseTypeChain_def Let_def split: option.splits if_splits)
qed

lemma insertFunc_zero:
  "\<forall>T i. i \<noteq> 0 \<longrightarrow> m T i = {} \<Longrightarrow> \<forall>T i. i \<noteq> 0 \<longrightarrow> insertFunc m h 0 F T i = {}"
  by (simp add: insertFunc_def)

lemma insertChain_fieldInsensitive:
  "fieldInsensitive C \<Longrightarrow> list_all (\<lambda>x. snd x = 0) Chain \<Longrightarrow> fieldInsensitive (insertChain C DL F Chain)"
proof (induction Chain arbitrary: C)
  case Nil
  then show ?case by simp
next
  case (Cons TI rest)
  have "fieldInsensitive (C\<lparr>typeIdxFuncsMap :=
                     insertFunc (typeIdxFuncsMap C) (typeHash C (fst TI) DL) (snd TI) F\<rparr>)"
    using Cons.prems by (simp add: fieldInsensitive_def insertFunc_def)
  from Cons.IH [OF this] Cons.prems(2) show ?case by simp
qed

lemma fieldInsensitive_cong:
  "fieldInsensitive C \<Longrightarrow> typeIdxFuncsMap C' = typeIdxFuncsMap C \<Longrightarrow>
   MLTA_FIELD_INSENSITIVE C' \<Longrightarrow> fieldInsensitive C'"
  by (simp add: fieldInsensitive_def)

lemma confineTargetFunction_fieldInsensitive:
  assumes "fieldInsensitive C" "confineTargetFunction C V F DL = Inr C'"
  shows "fieldInsensitive C'"
proof (cases "isIntrinsic (Funcs C F)")
  case True
  then show ?thesis using assms by (simp add: confineTargetFunction_def)
next
  case False
  from assms(2) False obtain Chain Complete C1
    where g: "getBaseTypeChain C [] V DL = Inr (Chain, Complete, C1)"
    by (auto simp: confineTargetFunction_def split: sum.splits)
  have fi: "MLTA_FIELD_INSENSITIVE C" using assms(1) by (simp add: fieldInsensitive_def)
  note k = getBaseTypeChain_zero [OF fi g]
  have "fieldInsensitive C1" using fieldInsensitive_cong [OF assms(1)] k by simp
  then have "fieldInsensitive (insertChain C1 DL F Chain)"
    using k by (intro insertChain_fieldInsensitive) auto
  then show ?thesis using assms(2) False g
    by (auto simp: confineTargetFunction_def Let_def fieldInsensitive_def split: if_splits)
qed

lemma confineEach_fieldInsensitive:
  "fieldInsensitive C \<Longrightarrow> confineEach C DL F Us = Inr C' \<Longrightarrow> fieldInsensitive C'"
proof (induction Us arbitrary: C)
  case Nil
  then show ?case by simp
next
  case (Cons U Us)
  from Cons.prems(2) obtain C1 where c1: "confineTargetFunction C U F DL = Inr C1"
    and r: "confineEach C1 DL F Us = Inr C'" by (auto split: sum.splits)
  from Cons.IH [OF confineTargetFunction_fieldInsensitive [OF Cons.prems(1) c1] r] show ?case .
qed

lemma confineCallOperand_fieldInsensitive:
  "fieldInsensitive C \<Longrightarrow> confineCallOperand C DL CalledV ON = Inr C' \<Longrightarrow> fieldInsensitive C'"
  by (auto simp: confineCallOperand_def split: vkind.splits if_splits option.splits
           dest: confineTargetFunction_fieldInsensitive confineEach_fieldInsensitive)

lemma confineCallOperands_fieldInsensitive:
  "fieldInsensitive C \<Longrightarrow> confineCallOperands C DL CalledV ONs = Inr C' \<Longrightarrow> fieldInsensitive C'"
proof (induction ONs arbitrary: C)
  case Nil
  then show ?case by simp
next
  case (Cons ON ONs)
  from Cons.prems(2) obtain C1 where c1: "confineCallOperand C DL CalledV ON = Inr C1"
    and r: "confineCallOperands C1 DL CalledV ONs = Inr C'" by (auto split: sum.splits)
  from Cons.IH [OF confineCallOperand_fieldInsensitive [OF Cons.prems(1) c1] r] show ?case .
qed

lemma confineInst_fieldInsensitive:
  "fieldInsensitive C \<Longrightarrow> confineInst C DL F I = Inr C' \<Longrightarrow> fieldInsensitive C'"
  by (auto simp: confineInst_def split: vkind.splits sum.splits option.splits if_splits
           dest: confineTargetFunction_fieldInsensitive confineCallOperands_fieldInsensitive)

lemma confineInsts_fieldInsensitive:
  "fieldInsensitive C \<Longrightarrow> confineInsts C DL F Is = Inr C' \<Longrightarrow> fieldInsensitive C'"
proof (induction Is arbitrary: C)
  case Nil
  then show ?case by simp
next
  case (Cons I Is)
  from Cons.prems(2) obtain C1 where c1: "confineInst C DL F I = Inr C1"
    and r: "confineInsts C1 DL F Is = Inr C'" by (auto split: sum.splits)
  from Cons.IH [OF confineInst_fieldInsensitive [OF Cons.prems(1) c1] r] show ?case .
qed

lemma typeConfineInFunction_fieldInsensitive:
  "fieldInsensitive C \<Longrightarrow> typeConfineInFunction C F DL = Inr C' \<Longrightarrow> fieldInsensitive C'"
  unfolding typeConfineInFunction_def by (rule confineInsts_fieldInsensitive)

lemma climbContainers_fieldInsensitive:
  "fieldInsensitive C \<Longrightarrow> fieldInsensitive (climbContainers C DL CM FoundF CurV Visited)"
proof (induction C DL CM FoundF CurV Visited rule: climbContainers.induct)
  case (1 C DL CM FoundF CurV Visited)
  show ?case
  proof (cases "map_of CM CurV")
    case None
    then show ?thesis using "1.prems" by (simp add: climbContainers.simps [of C])
  next
    case (Some Container)
    let ?C' = "C\<lparr>typeIdxFuncsMap :=
                        insertFunc (typeIdxFuncsMap C)
                          (typeHash C (typeOf (IR C) (fst Container)) DL)
                          (if MLTA_FIELD_INSENSITIVE C then 0 else int (snd Container))
                          FoundF\<rparr>"
    have inv': "fieldInsensitive ?C'"
      using "1.prems" by (simp add: fieldInsensitive_def insertFunc_def)
    show ?thesis
    proof (cases "fst Container \<in> insert CurV Visited")
      case True
      then show ?thesis using Some inv' by (simp add: climbContainers.simps [of C] Let_def)
    next
      case False
      from "1.IH" [OF Some refl False inv'] Some False show ?thesis
        by (simp add: climbContainers.simps [of C] Let_def)
    qed
  qed
qed

lemma foundFunction_fieldInsensitive:
  "fieldInsensitive C \<Longrightarrow> foundFunction DL Opd F (LU, CM, C) = (LU', CM', C') \<Longrightarrow> fieldInsensitive C'"
  by (auto simp: foundFunction_def climbContainers_fieldInsensitive split: if_splits)

lemma fieldInsensitive_VTable:
  "fieldInsensitive C \<Longrightarrow> fieldInsensitive (C\<lparr>VTableFuncsMap := X\<rparr>)"
  by (simp add: fieldInsensitive_def)

lemma fieldInsensitive_typeCapSet:
  "fieldInsensitive C \<Longrightarrow> fieldInsensitive (C\<lparr>typeCapSet := X\<rparr>)"
  by (simp add: fieldInsensitive_def)

lemma initOperand_fieldInsensitive:
  assumes "fieldInsensitive C" "initOperand DL GV U ON (LU, CM, C) = (LU', CM', C')"
  shows "fieldInsensitive C'"
  using assms
  by (auto simp: initOperand_def Let_def fieldInsensitive_VTable fieldInsensitive_typeCapSet
           split: vkind.splits if_splits
           dest!: foundFunction_fieldInsensitive [rotated])

lemma fold_initOperand_fieldInsensitive:
  "fieldInsensitive C \<Longrightarrow> fold (initOperand DL GV U) ONs (LU, CM, C) = (LU', CM', C')
   \<Longrightarrow> fieldInsensitive C'"
proof (induction ONs arbitrary: LU CM C)
  case Nil
  then show ?case by simp
next
  case (Cons ON ONs)
  obtain LU1 CM1 C1 where s1: "initOperand DL GV U ON (LU, CM, C) = (LU1, CM1, C1)"
    by (cases "initOperand DL GV U ON (LU, CM, C)")
  have "fold (initOperand DL GV U) ONs (LU1, CM1, C1) = (LU', CM', C')"
    using Cons.prems(2) s1 by simp
  from Cons.IH [OF initOperand_fieldInsensitive [OF Cons.prems(1) s1] this] show ?case .
qed

lemma initOperands_fieldInsensitive:
  "fieldInsensitive C \<Longrightarrow> initOperands DL GV U (LU, CM, C) = (LU', CM', C') \<Longrightarrow> fieldInsensitive C'"
  unfolding initOperands_def by (simp add: fold_initOperand_fieldInsensitive)

lemma initLoop_fieldInsensitive:
  "fieldInsensitive C \<Longrightarrow> initLoop DL GV LU Visited CM C = Inr C' \<Longrightarrow> fieldInsensitive C'"
proof (induction DL GV LU Visited CM C rule: initLoop.induct)
  case (1 DL GV Visited CM C)
  then show ?case by (simp add: initLoop.simps)
next
  case (2 DL GV U LU Visited CM C)
  note inv = "2.prems"(1) and res = "2.prems"(2)
  show ?case
  proof (cases "U \<in> Visited")
    case True
    then have "initLoop DL GV LU Visited CM C = Inr C'" using res by (simp add: initLoop.simps)
    from "2.IH"(1) [OF True inv this] show ?thesis .
  next
    case nv: False
    have nf: "\<not> isFunctionTy (typeOf (IR C) U)"
      using res nv by (auto simp: initLoop.simps split: if_splits)
    show ?thesis
    proof (cases "isStructTy (typeOf (IR C) U) \<and> operands (kindOf (IR C) U) = []")
      case True
      then have "initLoop DL GV LU (insert U Visited) CM C = Inr C'"
        using res nv nf by (simp add: initLoop.simps)
      from "2.IH"(2) [OF nv nf True inv this] show ?thesis .
    next
      case ne: False
      have na: "\<not> (isStructTy (typeOf (IR C) U)
                    \<and> numElements (typeOf (IR C) U) \<noteq> length (operands (kindOf (IR C) U)))"
        using res nv nf ne by (auto simp: initLoop.simps split: if_splits)
      obtain LU1 CM1 C1 where s1: "initOperands DL GV U (LU, CM, C) = (LU1, CM1, C1)"
        by (cases "initOperands DL GV U (LU, CM, C)")
      have r: "initLoop DL GV LU1 (insert U Visited) CM1 C1 = Inr C'"
        using res nv nf ne na s1 by (simp add: initLoop.simps)
      from "2.IH"(3) [OF nv nf ne na s1 [symmetric] refl initOperands_fieldInsensitive [OF inv s1] r]
      show ?thesis .
    qed
  qed
qed

lemma typeConfineInInitializer_fieldInsensitive:
  "fieldInsensitive C \<Longrightarrow> typeConfineInInitializer C GV DL = Inr C' \<Longrightarrow> fieldInsensitive C'"
  by (auto simp: typeConfineInInitializer_def split: vkind.splits option.splits
           dest: initLoop_fieldInsensitive)

lemma runConfinement_fieldInsensitive:
  "fieldInsensitive C \<Longrightarrow> runConfinement C calls = Inr C' \<Longrightarrow> fieldInsensitive C'"
proof (induction calls arbitrary: C)
  case Nil
  then show ?case by simp
next
  case (Cons c calls)
  show ?case
  proof (cases c)
    case (ConfineInitializer GV DL)
    with Cons.prems(2) obtain C1 where c1: "typeConfineInInitializer C GV DL = Inr C1"
      and r: "runConfinement C1 calls = Inr C'" by (auto split: sum.splits)
    from Cons.IH [OF typeConfineInInitializer_fieldInsensitive [OF Cons.prems(1) c1] r] show ?thesis .
  next
    case (ConfineFunction F DL)
    with Cons.prems(2) obtain C1 where c1: "typeConfineInFunction C F DL = Inr C1"
      and r: "runConfinement C1 calls = Inr C'" by (auto split: sum.splits)
    from Cons.IH [OF typeConfineInFunction_fieldInsensitive [OF Cons.prems(1) c1] r] show ?thesis .
  qed
qed

text \<open>
  An example for the confinement phase: \<open>struct P { fnptr a; fnptr b; }\<close>, the global
  \<open>g = { f1, f2 }\<close> (value 3 with initializer 2) and a function that stores \<open>f2\<close> to
  \<open>&g.b\<close> (the GEP 4 and the store 5).
\<close>

definition tyPair :: Type where
  "tyPair = (1, StructTy ''P'' [PointerTy (FunctionTy (IntegerTy 32) [] False),
                                PointerTy (FunctionTy (IntegerTy 32) [] False)])"

definition fiIR :: irtab where
  "fiIR = [\<lparr>vty = (1, PointerTy (FunctionTy (IntegerTy 32) [] False)), vkind = FunctionV 1, vfunc = None\<rparr>,
           \<lparr>vty = (1, PointerTy (FunctionTy (IntegerTy 32) [] False)), vkind = FunctionV 2, vfunc = None\<rparr>,
           \<lparr>vty = tyPair, vkind = ConstantAggregate [0, 1], vfunc = None\<rparr>,
           \<lparr>vty = (1, PointerTy (snd tyPair)), vkind = GlobalVariable (Some 2), vfunc = None\<rparr>,
           \<lparr>vty = (1, PointerTy (PointerTy (FunctionTy (IntegerTy 32) [] False))),
            vkind = GEP 3 tyPair [Some 0, Some 1], vfunc = Some 9\<rparr>,
           \<lparr>vty = (1, VoidTy), vkind = Store 1 4, vfunc = Some 9\<rparr>]"

definition fiCtx :: Ctx where
  "fiCtx = exCtx\<lparr>MLTA_FIELD_INSENSITIVE := True, IR := fiIR,
                  typeHash := (\<lambda>Ty DL. if Ty = tyPair then 5 else 0),
                  typeIdxFuncsMap := (\<lambda>h i. {}), typeEscapeSet := {}\<rparr>"

definition fiCalls :: "confineCall list" where
  "fiCalls = [ConfineInitializer 3 0,
              ConfineFunction \<lparr>fid = 9, isVarArg = False, argTys = [], returnTy = (1, VoidTy),
                               isIntrinsic = False, isDeclaration = False, fparent = 1,
                               funcHash = 300, fargs = [], finsts = [4, 5]\<rparr> 0]"

lemma fiCalls_result:
  "(case runConfinement fiCtx fiCalls of
      Inr C' \<Rightarrow> typeIdxFuncsMap C' 5 0 = {1, 2} \<and> typeCapSet C' = {5}
    | Inl e \<Rightarrow> False)"
  by code_simp

text \<open>
  Claim C7 (field-insensitive collapse): in field-insensitive mode, if
  \<open>typeIdxFuncsMap\<close> has no function under an index other than 0 before the confinement
  phase (the empty map in particular), then after any sequence of
  \<open>typeConfineInInitializer\<close> and \<open>typeConfineInFunction\<close> calls that completes, every
  set \<open>typeIdxFuncsMap[T][i]\<close> with \<open>i \<noteq> 0\<close> is empty.
\<close>

theorem confinement_field_insensitive:
  assumes "MLTA_FIELD_INSENSITIVE C"
    and "\<forall>T i. i \<noteq> 0 \<longrightarrow> typeIdxFuncsMap C T i = {}"
    and "runConfinement C calls = Inr C'"
    and "i \<noteq> 0"
  shows "typeIdxFuncsMap C' T i = {}"
proof -
  have "fieldInsensitive C" using assms(1,2) by (simp add: fieldInsensitive_def)
  from runConfinement_fieldInsensitive [OF this assms(3)] assms(4)
  show ?thesis by (simp add: fieldInsensitive_def)
qed

theorem confinement_field_insensitive_witness:
  "MLTA_FIELD_INSENSITIVE fiCtx \<and> (\<forall>T i. typeIdxFuncsMap fiCtx T i = {})
   \<and> (\<exists>C'. runConfinement fiCtx fiCalls = Inr C'
            \<and> typeIdxFuncsMap C' 5 0 = {1, 2} \<and> typeIdxFuncsMap C' 5 1 = {})"
proof -
  have h1: "MLTA_FIELD_INSENSITIVE fiCtx" by (simp add: fiCtx_def)
  have e: "\<forall>T i. typeIdxFuncsMap fiCtx T i = {}" by (simp add: fiCtx_def)
  then have h2: "\<forall>T i. i \<noteq> 0 \<longrightarrow> typeIdxFuncsMap fiCtx T i = {}" by simp
  from fiCalls_result obtain C' where h3: "runConfinement fiCtx fiCalls = Inr C'"
    and r: "typeIdxFuncsMap C' 5 0 = {1, 2}" by (auto split: sum.splits)
  have h4: "(1::int) \<noteq> 0" by simp
  from confinement_field_insensitive [OF h1 h2 h3 h4, of 5] h1 e h3 r
  show ?thesis by simp
qed

end
